theory Spec2Isabelle
  imports Complex_Main "HOL-Library.Word"
begin

section \<open>JavaScript strings\<close>

text \<open>
  A JavaScript string is a sequence of UTF-16 code units; \<open>length\<close>, \<open>slice\<close>,
  \<open>trim\<close>, \<open>startsWith\<close>, \<open>endsWith\<close> and the regular expressions of
  \<open>controller.js\<close> all work on code units.
\<close>

type_synonym cu = "16 word"
type_synonym jsstring = "cu list"

text \<open>An ASCII literal of the source, as code units.\<close>

definition asc :: "string \<Rightarrow> jsstring" where
  "asc s = map (\<lambda>c. of_nat (of_char c)) s"

text \<open>
  \<open>String.prototype.slice(start, end)\<close> for the non-negative integer arguments that
  \<open>controller.js\<close> passes: both ends are clamped to the length.
\<close>

definition slice_js :: "jsstring \<Rightarrow> nat \<Rightarrow> nat \<Rightarrow> jsstring" where
  "slice_js s start end =
     (let from = min start (length s); to = min end (length s)
      in take (to - from) (drop from s))"

text \<open>
  \<open>String.prototype.trim\<close> strips the ECMAScript white space and line terminator code
  units from both ends: TAB, LF, VT, FF, CR, SP, NBSP, U+1680, U+2000 to U+200A, U+2028,
  U+2029, U+202F, U+205F, U+3000 and U+FEFF.
\<close>

definition is_js_space :: "cu \<Rightarrow> bool" where
  "is_js_space c \<longleftrightarrow>
     c = 0x09 \<or> c = 0x0A \<or> c = 0x0B \<or> c = 0x0C \<or> c = 0x0D \<or> c = 0x20 \<or> c = 0xA0
     \<or> c = 0x1680 \<or> (0x2000 \<le> c \<and> c \<le> 0x200A) \<or> c = 0x2028 \<or> c = 0x2029
     \<or> c = 0x202F \<or> c = 0x205F \<or> c = 0x3000 \<or> c = 0xFEFF"

definition trim :: "jsstring \<Rightarrow> jsstring" where
  "trim s = rev (dropWhile is_js_space (rev (dropWhile is_js_space s)))"

definition startsWith :: "jsstring \<Rightarrow> jsstring \<Rightarrow> bool" where
  "startsWith s p \<longleftrightarrow> take (length p) s = p"

definition endsWith :: "jsstring \<Rightarrow> jsstring \<Rightarrow> bool" where
  "endsWith s p \<longleftrightarrow> length p \<le> length s \<and> drop (length s - length p) s = p"

text \<open>
  \<open>String.prototype.toLowerCase\<close> maps \<open>A\<close> to \<open>Z\<close> onto \<open>a\<close> to \<open>z\<close> and leaves
  every other ASCII code unit alone, whatever stands around it. What a code unit from
  U+0080 on contributes is given by the Unicode case tables, which are no part of the
  repository: it is the parameter \<open>other\<close>, which sees the whole string and the position
  (the mapping of a surrogate pair or of a final sigma depends on the neighbours).
\<close>

definition ascii_lower :: "cu \<Rightarrow> cu" where
  "ascii_lower c = (if 0x41 \<le> c \<and> c \<le> 0x5A then c + 0x20 else c)"

definition toLowerCase :: "(jsstring \<Rightarrow> nat \<Rightarrow> jsstring) \<Rightarrow> jsstring \<Rightarrow> jsstring" where
  "toLowerCase other s =
     concat (map (\<lambda>i. if s ! i < 0x80 then [ascii_lower (s ! i)] else other s i) [0..<length s])"

text \<open>\<open>Array.prototype.join\<close> on an array of strings.\<close>

fun join :: "jsstring \<Rightarrow> jsstring list \<Rightarrow> jsstring" where
  "join sep [] = []"
| "join sep [x] = x"
| "join sep (x # y # ys) = x @ sep @ join sep (y # ys)"

text \<open>
  \<open>s.replace(/p1|p2|.../g, "")\<close> for literal, non-empty alternatives: scanning from the
  left, the first alternative that matches at the current position is removed and the scan
  goes on behind it; where none matches, the code unit is kept. The greedy optional group
  of \<^verbatim>\<open>/```(?:json)?/g\<close> is the ordered alternation of \<^verbatim>\<open>```json\<close> and \<^verbatim>\<open>```\<close>.
\<close>

function replace_all :: "jsstring list \<Rightarrow> jsstring \<Rightarrow> jsstring" where
  "replace_all alts [] = []"
| "replace_all alts (c # cs) =
     (case find (\<lambda>p. p \<noteq> [] \<and> startsWith (c # cs) p) alts of
        Some p \<Rightarrow> replace_all alts (drop (length p) (c # cs))
      | None \<Rightarrow> c # replace_all alts cs)"
  by pat_completeness auto
termination
  by (relation "measure (\<lambda>(alts, s). length s)") (auto simp: find_Some_iff)

text \<open>
  \<open>cleaned.match\<close> with the greedy pattern "an opening brace, any code units, a closing
  brace": the text from the first \<open>{\<close> to the last \<open>}\<close> behind it, or no match. (Where
  no \<open>}\<close> follows the first \<open>{\<close>, none follows a later \<open>{\<close> either.)
\<close>

definition match_braces :: "jsstring \<Rightarrow> jsstring option" where
  "match_braces s =
     (case dropWhile (\<lambda>c. c \<noteq> 0x7B) s of
        [] \<Rightarrow> None
      | b # r \<Rightarrow>
          (case rev (dropWhile (\<lambda>c. c \<noteq> 0x7D) (rev r)) of
             [] \<Rightarrow> None
           | m \<Rightarrow> Some (b # m)))"

section \<open>JavaScript values\<close>

text \<open>
  The values that flow through \<open>controller.js\<close>: what \<open>JSON.parse\<close> returns, what the
  model client hands back, and \<open>undefined\<close>. The controller asks of a number only
  whether it is falsy, that is zero (there is no \<open>NaN\<close> in JSON): a number is kept as a
  rational, zero exactly when the binary64 value is zero (see \<open>number_value\<close> for the
  literals of \<open>JSON.parse\<close>); the rounding of the other values and the overflow to
  \<open>Infinity\<close> are not modelled. An object is the list of its properties in the order in
  which the language enumerates them (see \<open>set_property\<close>).
\<close>

datatype jsval =
    JUndefined
  | JNull
  | JBool bool
  | JNum rat
  | JStr jsstring
  | JArr "jsval list"
  | JObj "(jsstring \<times> jsval) list"

text \<open>What \<open>!v\<close> negates.\<close>

fun truthy :: "jsval \<Rightarrow> bool" where
  "truthy JUndefined = False"
| "truthy JNull = False"
| "truthy (JBool b) = b"
| "truthy (JNum r) = (r \<noteq> 0)"
| "truthy (JStr s) = (s \<noteq> [])"
| "truthy (JArr xs) = True"
| "truthy (JObj kvs) = True"

fun typeof :: "jsval \<Rightarrow> string" where
  "typeof JUndefined = ''undefined''"
| "typeof JNull = ''object''"
| "typeof (JBool b) = ''boolean''"
| "typeof (JNum r) = ''number''"
| "typeof (JStr s) = ''string''"
| "typeof (JArr xs) = ''object''"
| "typeof (JObj kvs) = ''object''"

text \<open>
  \<open>v.name\<close> for a value that is neither \<open>null\<close> nor \<open>undefined\<close> and one of the names
  the controller reads (\<open>summary\<close>, \<open>title\<close>, \<open>description\<close>, \<open>candidates\<close>, \<open>content\<close>,
  \<open>parts\<close>, \<open>text\<close>, \<open>output_text\<close>): only an object can have it.
\<close>

fun member :: "jsval \<Rightarrow> jsstring \<Rightarrow> jsval" where
  "member (JObj kvs) name = (case map_of kvs name of Some v \<Rightarrow> v | None \<Rightarrow> JUndefined)"
| "member v name = JUndefined"

text \<open>\<open>v[0]\<close>: the first element of an array, the first code unit of a string.\<close>

fun index0 :: "jsval \<Rightarrow> jsval" where
  "index0 (JArr xs) = (case xs of [] \<Rightarrow> JUndefined | x # _ \<Rightarrow> x)"
| "index0 (JStr s) = (case s of [] \<Rightarrow> JUndefined | c # _ \<Rightarrow> JStr [c])"
| "index0 (JObj kvs) = member (JObj kvs) (asc ''0'')"
| "index0 v = JUndefined"

text \<open>Optional chaining, \<open>v?.name\<close> and \<open>v?.[0]\<close>.\<close>

definition nullish :: "jsval \<Rightarrow> bool" where
  "nullish v \<longleftrightarrow> v = JUndefined \<or> v = JNull"

definition opt_member :: "jsval \<Rightarrow> jsstring \<Rightarrow> jsval" where
  "opt_member v name = (if nullish v then JUndefined else member v name)"

definition opt_index0 :: "jsval \<Rightarrow> jsval" where
  "opt_index0 v = (if nullish v then JUndefined else index0 v)"

text \<open>
  A thrown value, with what the \<open>catch\<close> blocks of the handlers read from it
  (\<open>err?.message || String(err)\<close>): a rejection by a collaborator with its message, the
  \<open>TypeError\<close> of calling a missing method (the message is V8's), or the \<open>SyntaxError\<close>
  of \<open>JSON.parse\<close>, of whose message (it depends on the engine and on the text) only the
  name is kept.
\<close>

datatype exn = Rejected jsstring | NotAFunction string | SyntaxError

fun details :: "exn \<Rightarrow> jsstring" where
  "details (Rejected message) = message"
| "details (NotAFunction e) = asc e @ asc '' is not a function''"
| "details SyntaxError = asc ''SyntaxError''"
section \<open>JSON.parse\<close>

text \<open>
  \<open>JSON.parse\<close> is a builtin of the language. It is modelled after the JSON grammar
  (ECMA-404) as a tokenizer followed by a stack parser; where either of them gives up
  (\<open>None\<close>), \<open>JSON.parse\<close> throws a \<open>SyntaxError\<close>. No two value tokens of the grammar are
  ever adjacent, so reading tokens first accepts the same texts.
\<close>

datatype token =
    LBrace | RBrace | LBracket | RBracket | Colon | Comma
  | TString jsstring | TNumber rat | TTrue | TFalse | TNull

definition is_json_ws :: "cu \<Rightarrow> bool" where
  "is_json_ws c \<longleftrightarrow> c = 0x20 \<or> c = 0x09 \<or> c = 0x0A \<or> c = 0x0D"

definition is_digit :: "cu \<Rightarrow> bool" where
  "is_digit c \<longleftrightarrow> 0x30 \<le> c \<and> c \<le> 0x39"

definition hex_value :: "cu \<Rightarrow> nat option" where
  "hex_value c =
     (if 0x30 \<le> c \<and> c \<le> 0x39 then Some (unat c - 0x30)
      else if 0x41 \<le> c \<and> c \<le> 0x46 then Some (unat c - 0x41 + 10)
      else if 0x61 \<le> c \<and> c \<le> 0x66 then Some (unat c - 0x61 + 10)
      else None)"

text \<open>The single-character escapes: quote, backslash, slash, b, f, n, r, t.\<close>

definition unescape :: "cu \<Rightarrow> cu option" where
  "unescape e =
     (if e = 0x22 \<or> e = 0x5C \<or> e = 0x2F then Some e
      else if e = 0x62 then Some 0x08
      else if e = 0x66 then Some 0x0C
      else if e = 0x6E then Some 0x0A
      else if e = 0x72 then Some 0x0D
      else if e = 0x74 then Some 0x09
      else None)"

text \<open>What follows a backslash: \<open>u\<close> and four hex digits, or a single-character escape.\<close>

fun scan_escape :: "jsstring \<Rightarrow> (cu \<times> jsstring) option" where
  "scan_escape [] = None"
| "scan_escape (e # r) =
     (if e = 0x75 then
        (case r of
           h1 # h2 # h3 # h4 # r' \<Rightarrow>
             (case (hex_value h1, hex_value h2, hex_value h3, hex_value h4) of
                (Some a, Some b, Some c, Some d) \<Rightarrow>
                  Some (of_nat (((a * 16 + b) * 16 + c) * 16 + d), r')
              | _ \<Rightarrow> None)
         | _ \<Rightarrow> None)
      else map_option (\<lambda>u. (u, r)) (unescape e))"

lemma scan_escape_shorter: "scan_escape s = Some (u, r) \<Longrightarrow> length r < length s"
  by (cases s) (auto split: if_splits list.splits option.splits)

text \<open>
  A string behind its opening quote: the decoded code units and the rest behind the
  closing quote. Control characters below U+0020 are not allowed unescaped.
\<close>

function scan_string :: "jsstring \<Rightarrow> (jsstring \<times> jsstring) option" where
  "scan_string [] = None"
| "scan_string (c # cs) =
     (if c = 0x22 then Some ([], cs)
      else if c = 0x5C then
        (case scan_escape cs of
           None \<Rightarrow> None
         | Some (u, r) \<Rightarrow> map_option (\<lambda>(str, rest). (u # str, rest)) (scan_string r))
      else if c < 0x20 then None
      else map_option (\<lambda>(str, rest). (c # str, rest)) (scan_string cs))"
  by pat_completeness auto
termination
  by (relation "measure length") (auto dest: scan_escape_shorter)

lemma scan_string_shorter: "scan_string s = Some (str, rest) \<Longrightarrow> length rest < length s"
  by (induction s arbitrary: str rest rule: scan_string.induct)
     (fastforce split: if_splits option.splits dest: scan_escape_shorter)+

definition digits_value :: "jsstring \<Rightarrow> nat" where
  "digits_value ds = foldl (\<lambda>n d. 10 * n + (unat d - 0x30)) 0 ds"

text \<open>The fraction: a point and at least one digit, or nothing.\<close>

definition scan_frac :: "jsstring \<Rightarrow> (rat \<times> jsstring) option" where
  "scan_frac s =
     (case s of
        d # r \<Rightarrow>
          (if d = 0x2E then
             (let fd = takeWhile is_digit r in
              if fd = [] then None
              else Some (of_nat (digits_value fd) / 10 ^ length fd, dropWhile is_digit r))
           else Some (0, s))
      | [] \<Rightarrow> Some (0, s))"

text \<open>The exponent: \<open>e\<close> or \<open>E\<close>, an optional sign and at least one digit, or nothing.\<close>

definition scan_exp :: "jsstring \<Rightarrow> (rat \<times> jsstring) option" where
  "scan_exp s =
     (case s of
        e # r \<Rightarrow>
          (if e = 0x65 \<or> e = 0x45 then
             (let neg = (case r of g # _ \<Rightarrow> g = 0x2D | [] \<Rightarrow> False);
                  r' = (case r of g # t \<Rightarrow> if g = 0x2B \<or> g = 0x2D then t else r | [] \<Rightarrow> r);
                  ed = takeWhile is_digit r' in
              if ed = [] then None
              else Some (if neg then 1 / 10 ^ digits_value ed else 10 ^ digits_value ed,
                         dropWhile is_digit r'))
           else Some (1, s))
      | [] \<Rightarrow> Some (1, s))"

text \<open>
  The Number value of a literal, as far as the controller can tell. The least positive
  value of binary64 is \<open>1 / 2 ^ 1074\<close>, and rounding to nearest (a tie goes to the even
  neighbour, here zero) takes a literal to zero exactly when its magnitude is at most
  half of that: \<open>1e-324\<close> is \<open>0\<close>. Every other literal is kept as it is written.
\<close>

definition number_value :: "rat \<Rightarrow> rat" where
  "number_value r = (if \<bar>r\<bar> * 2 ^ 1075 \<le> 1 then 0 else r)"

lemma number_value_code [code]:
  "number_value r = (if 1 \<le> \<bar>r\<bar> then r else if \<bar>r\<bar> * 2 ^ 1075 \<le> 1 then 0 else r)"
proof -
  have "(1 :: rat) < 2 ^ 1075"
    by simp
  then have "1 < \<bar>r\<bar> * 2 ^ 1075" if "1 \<le> \<bar>r\<bar>"
    using that by (meson less_le_trans mult_le_cancel_right1 mult_less_cancel_left1 not_less
        less_1_mult)
  then show ?thesis
    by (auto simp: number_value_def)
qed

text \<open>
  A number: an optional minus, an integer part without a leading zero (unless it is the
  single digit 0), then fraction and exponent.
\<close>

definition scan_number :: "jsstring \<Rightarrow> (rat \<times> jsstring) option" where
  "scan_number s =
     (let neg = (case s of m # _ \<Rightarrow> m = 0x2D | [] \<Rightarrow> False);
          s1 = (if neg then tl s else s);
          ds = takeWhile is_digit s1 in
      if ds = [] \<or> (hd ds = 0x30 \<and> length ds > 1) then None
      else
        (case scan_frac (dropWhile is_digit s1) of
           None \<Rightarrow> None
         | Some (f, s2) \<Rightarrow>
             (case scan_exp s2 of
                None \<Rightarrow> None
              | Some (p, s3) \<Rightarrow>
                  Some (number_value ((if neg then -1 else 1) * (of_nat (digits_value ds) + f) * p),
                        s3))))"

definition next_token :: "jsstring \<Rightarrow> (token \<times> jsstring) option" where
  "next_token s =
     (case s of
        [] \<Rightarrow> None
      | c # cs \<Rightarrow>
          if c = 0x7B then Some (LBrace, cs)
          else if c = 0x7D then Some (RBrace, cs)
          else if c = 0x5B then Some (LBracket, cs)
          else if c = 0x5D then Some (RBracket, cs)
          else if c = 0x3A then Some (Colon, cs)
          else if c = 0x2C then Some (Comma, cs)
          else if c = 0x22 then map_option (\<lambda>(str, rest). (TString str, rest)) (scan_string cs)
          else if c = 0x2D \<or> is_digit c then
            map_option (\<lambda>(n, rest). (TNumber n, rest)) (scan_number s)
          else if startsWith s (asc ''true'') then Some (TTrue, drop 4 s)
          else if startsWith s (asc ''false'') then Some (TFalse, drop 5 s)
          else if startsWith s (asc ''null'') then Some (TNull, drop 4 s)
          else None)"

lemma length_dropWhile_less: "takeWhile P xs \<noteq> [] \<Longrightarrow> length (dropWhile P xs) < length xs"
  by (cases xs) (auto split: if_splits intro: le_imp_less_Suc length_dropWhile_le)

lemma scan_frac_shorter: "scan_frac s = Some (f, r) \<Longrightarrow> length r \<le> length s"
  by (auto simp: scan_frac_def Let_def split: list.splits if_splits
           intro: le_SucI length_dropWhile_le)

lemma scan_exp_shorter: "scan_exp s = Some (p, r) \<Longrightarrow> length r \<le> length s"
  by (auto simp: scan_exp_def Let_def split: list.splits if_splits
           intro: le_SucI length_dropWhile_le)

lemma scan_number_shorter:
  assumes "scan_number s = Some (n, rest)"
  shows "length rest < length s"
proof -
  define s1 where "s1 = (if (case s of m # _ \<Rightarrow> m = 0x2D | [] \<Rightarrow> False) then tl s else s)"
  have s1: "length s1 \<le> length s"
    by (simp add: s1_def)
  from assms obtain f s2 p where
    ds: "takeWhile is_digit s1 \<noteq> []" and
    fr: "scan_frac (dropWhile is_digit s1) = Some (f, s2)" and
    ex: "scan_exp s2 = Some (p, rest)"
    unfolding scan_number_def Let_def s1_def [symmetric]
    by (auto split: if_splits option.splits)
  have "length rest \<le> length s2"
    using ex by (rule scan_exp_shorter)
  also have "\<dots> \<le> length (dropWhile is_digit s1)"
    using fr by (rule scan_frac_shorter)
  also have "\<dots> < length s1"
    using ds by (rule length_dropWhile_less)
  finally show ?thesis
    using s1 by simp
qed

lemma next_token_shorter: "next_token s = Some (t, rest) \<Longrightarrow> length rest < length s"
  by (cases s)
     (auto simp: next_token_def split: if_splits
           dest: scan_string_shorter scan_number_shorter)

function tokenize :: "jsstring \<Rightarrow> token list option" where
  "tokenize [] = Some []"
| "tokenize (c # cs) =
     (if is_json_ws c then tokenize cs
      else
        (case next_token (c # cs) of
           None \<Rightarrow> None
         | Some (t, rest) \<Rightarrow> map_option ((#) t) (tokenize rest)))"
  by pat_completeness auto
termination
  by (relation "measure length") (auto dest: next_token_shorter)

text \<open>
  The properties of an object are enumerated with the array indices first, in ascending
  order, and then the other keys in the order in which they were added. An array index is
  a key that is the decimal numeral, without leading zeros, of a number below
  \<open>2 ^ 32 - 1\<close>.
\<close>

definition array_index :: "jsstring \<Rightarrow> nat option" where
  "array_index k =
     (if k = [] \<or> \<not> list_all is_digit k then None
      else if hd k = 0x30 \<and> 1 < length k then None
      else if 4294967295 \<le> int (digits_value k) then None
      else Some (digits_value k))"

definition listed_before :: "jsstring \<Rightarrow> jsstring \<Rightarrow> bool" where
  "listed_before k k' =
     (case array_index k of
        None \<Rightarrow> False
      | Some i \<Rightarrow> (case array_index k' of None \<Rightarrow> True | Some j \<Rightarrow> i < j))"

fun add_property :: "jsstring \<Rightarrow> jsval \<Rightarrow> (jsstring \<times> jsval) list \<Rightarrow> (jsstring \<times> jsval) list" where
  "add_property k v [] = [(k, v)]"
| "add_property k v (p # ps) =
     (if listed_before k (fst p) then (k, v) # p # ps else p # add_property k v ps)"

text \<open>
  Defining a property of an object, as \<open>JSON.parse\<close> does for every member it reads: a
  repeated key keeps its place and takes the later value, a new key takes its place in
  the enumeration.
\<close>

definition set_property :: "jsstring \<Rightarrow> jsval \<Rightarrow> (jsstring \<times> jsval) list \<Rightarrow> (jsstring \<times> jsval) list" where
  "set_property k v ps =
     (if list_ex (\<lambda>p. fst p = k) ps then map (\<lambda>p. if fst p = k then (k, v) else p) ps
      else add_property k v ps)"

text \<open>
  The parser reads the tokens once, with a stack of the arrays and objects that are still
  open: an array with its elements so far, an object with its members so far and the key
  whose value is being read.
\<close>

datatype frame =
    InArray "jsval list"
  | InObject "(jsstring \<times> jsval) list" jsstring

datatype pstate =
    PValue "frame list"
  | PArrayStart "frame list"
  | PObjectStart "frame list"
  | PKey "(jsstring \<times> jsval) list" "frame list"
  | PColon "(jsstring \<times> jsval) list" jsstring "frame list"
  | PAfter jsval "frame list"

fun start_value :: "frame list \<Rightarrow> token \<Rightarrow> pstate option" where
  "start_value st (TString s) = Some (PAfter (JStr s) st)"
| "start_value st (TNumber n) = Some (PAfter (JNum n) st)"
| "start_value st TTrue = Some (PAfter (JBool True) st)"
| "start_value st TFalse = Some (PAfter (JBool False) st)"
| "start_value st TNull = Some (PAfter JNull st)"
| "start_value st LBracket = Some (PArrayStart st)"
| "start_value st LBrace = Some (PObjectStart st)"
| "start_value st t = None"

fun step :: "pstate \<Rightarrow> token \<Rightarrow> pstate option" where
  "step (PValue st) t = start_value st t"
| "step (PArrayStart st) t =
     (if t = RBracket then Some (PAfter (JArr []) st) else start_value (InArray [] # st) t)"
| "step (PObjectStart st) t =
     (case t of
        RBrace \<Rightarrow> Some (PAfter (JObj []) st)
      | TString k \<Rightarrow> Some (PColon [] k st)
      | _ \<Rightarrow> None)"
| "step (PKey ms st) t = (case t of TString k \<Rightarrow> Some (PColon ms k st) | _ \<Rightarrow> None)"
| "step (PColon ms k st) t = (if t = Colon then Some (PValue (InObject ms k # st)) else None)"
| "step (PAfter v []) t = None"
| "step (PAfter v (InArray xs # st)) t =
     (case t of
        Comma \<Rightarrow> Some (PValue (InArray (xs @ [v]) # st))
      | RBracket \<Rightarrow> Some (PAfter (JArr (xs @ [v])) st)
      | _ \<Rightarrow> None)"
| "step (PAfter v (InObject ms k # st)) t =
     (case t of
        Comma \<Rightarrow> Some (PKey (set_property k v ms) st)
      | RBrace \<Rightarrow> Some (PAfter (JObj (set_property k v ms)) st)
      | _ \<Rightarrow> None)"

fun parse_tokens :: "pstate \<Rightarrow> token list \<Rightarrow> jsval option" where
  "parse_tokens (PAfter v []) [] = Some v"
| "parse_tokens ps [] = None"
| "parse_tokens ps (t # ts) =
     (case step ps t of None \<Rightarrow> None | Some ps' \<Rightarrow> parse_tokens ps' ts)"

definition JSON_parse :: "jsstring \<Rightarrow> exn + jsval" where
  "JSON_parse s =
     (case tokenize s of
        None \<Rightarrow> Inl SyntaxError
      | Some ts \<Rightarrow>
          (case parse_tokens (PValue []) ts of None \<Rightarrow> Inl SyntaxError | Some v \<Rightarrow> Inr v))"

section \<open>controller.js\<close>

subsection \<open>extractJsonFromString\<close>

text \<open>
  Lines 44-47: both \<open>replace\<close> calls and the \<open>trim\<close>.
  \<^verbatim>\<open>const cleaned = s.replace(/```(?:json)?/g, "").replace(/```/g, "").trim();\<close>
\<close>

definition cleaned :: "jsstring \<Rightarrow> jsstring" where
  "cleaned s = trim (replace_all [asc ''```''] (replace_all [asc ''```json'', asc ''```''] s))"

text \<open>
  \<^verbatim>\<open>try { return body } catch { handler }\<close>: what the body returns, or else what the
  handler does; a throw of the handler is thrown on. (The \<open>catch\<close> blocks of
  \<open>extractJsonFromString\<close> bind no error.)
\<close>

fun try_catch :: "exn + 'a \<Rightarrow> exn + 'a \<Rightarrow> exn + 'a" where
  "try_catch (Inr v) handler = Inr v"
| "try_catch (Inl err) handler = handler"

text \<open>
  Lines 40-59. The function returns \<open>null\<close> from three places and a parsed value from
  two. Both \<open>JSON.parse\<close> calls can throw; each stands in a \<open>try\<close> of its own, the second
  one inside the \<open>catch\<close> of the first.
\<close>

definition extractJsonFromString :: "jsval \<Rightarrow> exn + jsval" where
  "extractJsonFromString s =
     (if \<not> truthy s \<or> typeof s \<noteq> ''string'' then Inr JNull
      else
        (case s of
           JStr str \<Rightarrow>
             try_catch (JSON_parse (cleaned str))
               (case match_braces (cleaned str) of
                  None \<Rightarrow> Inr JNull
                | Some m \<Rightarrow> try_catch (JSON_parse m) (Inr JNull))
         | _ \<Rightarrow> Inr JNull))"

subsection \<open>Requests, model calls and replies\<close>

type_synonym buffer = "8 word list"

text \<open>\<open>req.file\<close> as multer builds it.\<close>

record multer_file =
  buffer :: buffer
  mimetype :: "jsstring option"
  originalname :: "jsstring option"
  size_bytes :: nat

text \<open>
  The three prompt templates are constants that the controller only passes on. A request
  to the model is \<open>{model, contents: [prompt, part]}\<close>; the part is the image
  (\<open>bufferToGenerativePart\<close>, whose base64 text stands for the buffer) or \<open>{text}\<close>.
\<close>

datatype prompt = image_prompt | pdf_chunk_prompt | pdf_combine_prompt

datatype part = InlineData buffer "jsstring option" | TextPart jsstring

record model_input =
  model :: jsstring
  contents :: "prompt \<times> part"

definition MODEL :: jsstring where
  "MODEL = asc ''gemini-2.5-flash''"

definition bufferToGenerativePart :: "buffer \<Rightarrow> jsstring option \<Rightarrow> part" where
  "bufferToGenerativePart buf mimeType = InlineData buf mimeType"

text \<open>
  What \<open>generateContent\<close> resolves to: an object whose \<open>text\<close> is a function (with what
  calling it returns or throws), or any other value.
\<close>

datatype response = Callable "exn + jsval" | Plain jsval

text \<open>What a request does to the outside, in order.\<close>

datatype event = PdfParse buffer | GenerateContent model_input

text \<open>
  The collaborators. The model's answer may depend on the input and on everything the
  request has done before; \<open>pdf\<close> resolves to the \<open>text\<close> of the parsed document
  (\<open>None\<close> where \<open>data?.text\<close> is missing) or rejects. \<open>JSON_stringify\<close> and the case
  mapping of non-ASCII code units are builtins.
\<close>

record env =
  generateContent :: "event list \<Rightarrow> model_input \<Rightarrow> exn + response"
  pdf :: "buffer \<Rightarrow> exn + jsstring option"
  JSON_stringify :: "jsval \<Rightarrow> jsval"
  lower_non_ascii :: "jsstring \<Rightarrow> nat \<Rightarrow> jsstring"

text \<open>\<open>res.status(n).json(body)\<close>; \<open>res.json(body)\<close> is status 200.\<close>

datatype reply = Reply nat "(jsstring \<times> jsval) list"

text \<open>How a step of a handler ends: with a reply, with a throw, or going on.\<close>

datatype 'a outcome = Return reply | Throw exn | Next 'a

subsection \<open>promiseTextFromResponse\<close>

text \<open>Lines 61-71.\<close>

fun promiseTextFromResponse :: "(jsval \<Rightarrow> jsval) \<Rightarrow> response \<Rightarrow> exn + jsval" where
  "promiseTextFromResponse stringify (Callable result) = result"
| "promiseTextFromResponse stringify (Plain response) =
     (if \<not> truthy response then Inr JNull
      else
        let content = opt_member (opt_index0 (opt_member response (asc ''candidates'')))
                        (asc ''content'');
            parts_text = opt_member (opt_index0 (opt_member content (asc ''parts''))) (asc ''text'');
            content_text = opt_member content (asc ''text'');
            output_text = opt_member response (asc ''output_text'')
        in
          if truthy parts_text then Inr parts_text
          else if truthy content_text then Inr content_text
          else if truthy output_text then Inr output_text
          else Inr (if typeof response = ''string'' then response else stringify response))"

subsection \<open>processImage\<close>

text \<open>\<^verbatim>\<open>x && typeof x === "string" ? x.trim() : null\<close>, for \<open>x\<close> a property of the parsed object.\<close>

definition trimmed_or_null :: "jsval \<Rightarrow> jsval" where
  "trimmed_or_null x =
     (if truthy x \<and> typeof x = ''string''
      then (case x of JStr str \<Rightarrow> JStr (trim str) | _ \<Rightarrow> JNull)
      else JNull)"

text \<open>Lines 120-138: the required keys.\<close>

definition image_artifact :: "jsval \<Rightarrow> reply" where
  "image_artifact parsed =
     (let title = trimmed_or_null (member parsed (asc ''title''));
          description = trimmed_or_null (member parsed (asc ''description''))
      in
        if \<not> truthy title \<or> \<not> truthy description then
          Reply 500
            [(asc ''error'', JStr (asc ''Gemini returned JSON but required keys are missing or invalid.'')),
             (asc ''geminiJson'', parsed)]
        else Reply 200 [(asc ''title'', title), (asc ''description'', description)])"

text \<open>Lines 77-138, the \<open>try\<close> block.\<close>

definition processImage_try :: "env \<Rightarrow> multer_file option \<Rightarrow> (exn + reply) \<times> event list" where
  "processImage_try e req_file =
     (case req_file of
        None \<Rightarrow> (Inr (Reply 400 [(asc ''error'', JStr (asc ''No image file provided.''))]), [])
      | Some f \<Rightarrow>
          if \<not> (case mimetype f of None \<Rightarrow> False | Some m \<Rightarrow> startsWith m (asc ''image/'')) then
            (Inr (Reply 400 [(asc ''error'', JStr (asc ''Uploaded file is not an image.''))]), [])
          else if size_bytes f > 10 * 1024 * 1024 then
            (Inr (Reply 413 [(asc ''error'', JStr (asc ''Image exceeds maximum size of 10MB.''))]), [])
          else
            let imagePart = bufferToGenerativePart (buffer f) (mimetype f);
                modelInput = \<lparr>model = MODEL, contents = (image_prompt, imagePart)\<rparr>;
                trace = [GenerateContent modelInput]
            in
              case generateContent e [] modelInput of
                Inl err \<Rightarrow> (Inl err, trace)
              | Inr response \<Rightarrow>
                  (case promiseTextFromResponse (JSON_stringify e) response of
                     Inl err \<Rightarrow> (Inl err, trace)
                   | Inr textOut \<Rightarrow>
                       (case extractJsonFromString textOut of
                          Inl err \<Rightarrow> (Inl err, trace)
                        | Inr parsed \<Rightarrow>
                            if \<not> truthy parsed \<or> typeof parsed \<noteq> ''object'' then
                              (Inr (Reply 500
                                 [(asc ''error'', JStr (asc ''Failed to parse Gemini's JSON response.'')),
                                  (asc ''geminiRawResponse'', textOut)]), trace)
                            else (Inr (image_artifact parsed), trace))))"

text \<open>Lines 73-149: the handler with its \<open>catch\<close>.\<close>

definition processImage :: "env \<Rightarrow> multer_file option \<Rightarrow> reply \<times> event list" where
  "processImage e req_file =
     (case processImage_try e req_file of
        (Inr r, trace) \<Rightarrow> (r, trace)
      | (Inl err, trace) \<Rightarrow>
          (Reply 500 [(asc ''error'', JStr (asc ''Failed to analyze image.'')),
                      (asc ''details'', JStr (details err))], trace))"

subsection \<open>processPdf\<close>

definition CHUNK_SIZE :: nat where
  "CHUNK_SIZE = 24000"

text \<open>
  Lines 185-188:
  \<^verbatim>\<open>for (let i = 0; i < text.length; i += CHUNK_SIZE) chunks.push(text.slice(i, i + CHUNK_SIZE));\<close>
\<close>

function chunk_loop :: "jsstring \<Rightarrow> nat \<Rightarrow> jsstring list \<Rightarrow> jsstring list" where
  "chunk_loop text i chunks =
     (if i < length text
      then chunk_loop text (i + CHUNK_SIZE) (chunks @ [slice_js text i (i + CHUNK_SIZE)])
      else chunks)"
  by pat_completeness auto
termination
  by (relation "measure (\<lambda>(text, i, chunks). length text - i)") (auto simp: CHUNK_SIZE_def)

definition chunks :: "jsstring \<Rightarrow> jsstring list" where
  "chunks text = chunk_loop text 0 []"

text \<open>
  Lines 241-242:
  \<^verbatim>\<open>if (finalSummary.length > 4000) finalSummary = finalSummary.slice(0, 3997) + "...";\<close>
\<close>

definition cap :: "jsstring \<Rightarrow> jsstring" where
  "cap finalSummary =
     (if length finalSummary > 4000 then slice_js finalSummary 0 3997 @ asc ''...''
      else finalSummary)"

text \<open>The two requests of the pipeline, lines 194-197 and 218-221.\<close>

definition chunk_input :: "jsstring \<Rightarrow> model_input" where
  "chunk_input chunk = \<lparr>model = MODEL, contents = (pdf_chunk_prompt, TextPart chunk)\<rparr>"

definition combine_input :: "jsstring \<Rightarrow> model_input" where
  "combine_input finalSummary =
     \<lparr>model = MODEL, contents = (pdf_combine_prompt, TextPart finalSummary)\<rparr>"

text \<open>
  Lines 194-212, the body of the loop over the chunks. The check in line 203 lets every
  truthy \<open>summary\<close> pass; \<open>parsed.summary.trim()\<close> in line 212 then throws a \<open>TypeError\<close>
  unless it is a string.
\<close>

definition summarize_chunk :: "env \<Rightarrow> event list \<Rightarrow> jsstring \<Rightarrow> jsstring outcome" where
  "summarize_chunk e trace chunk =
     (case generateContent e trace (chunk_input chunk) of
        Inl err \<Rightarrow> Throw err
      | Inr response \<Rightarrow>
          (case promiseTextFromResponse (JSON_stringify e) response of
             Inl err \<Rightarrow> Throw err
           | Inr textOut \<Rightarrow>
               (case extractJsonFromString textOut of
                  Inl err \<Rightarrow> Throw err
                | Inr parsed \<Rightarrow>
                    if \<not> truthy parsed \<or> typeof parsed \<noteq> ''object''
                       \<or> \<not> truthy (member parsed (asc ''summary''))
                    then
                      Return (Reply 500
                        [(asc ''error'', JStr (asc ''Failed to parse Gemini summary for a PDF chunk.'')),
                         (asc ''geminiRawResponse'', textOut)])
                    else
                      (case member parsed (asc ''summary'') of
                         JStr summary \<Rightarrow> Next (trim summary)
                       | _ \<Rightarrow> Throw (NotAFunction ''parsed.summary.trim'')))))"

text \<open>
  Lines 190-213: the chunks in order, one awaited model call each; the first chunk that
  does not go on ends the loop.
\<close>

fun summarize_loop ::
  "env \<Rightarrow> jsstring list \<Rightarrow> jsstring list \<Rightarrow> event list \<Rightarrow> jsstring list outcome \<times> event list"
where
  "summarize_loop e [] chunkSummaries trace = (Next chunkSummaries, trace)"
| "summarize_loop e (chunk # rest) chunkSummaries trace =
     (case summarize_chunk e trace chunk of
        Next summary \<Rightarrow>
          summarize_loop e rest (chunkSummaries @ [summary])
            (trace @ [GenerateContent (chunk_input chunk)])
      | Return r \<Rightarrow> (Return r, trace @ [GenerateContent (chunk_input chunk)])
      | Throw err \<Rightarrow> (Throw err, trace @ [GenerateContent (chunk_input chunk)]))"

text \<open>Lines 218-237: the combine call.\<close>

definition combine :: "env \<Rightarrow> event list \<Rightarrow> jsstring \<Rightarrow> jsstring outcome" where
  "combine e trace finalSummary =
     (case generateContent e trace (combine_input finalSummary) of
        Inl err \<Rightarrow> Throw err
      | Inr combineResp \<Rightarrow>
          (case promiseTextFromResponse (JSON_stringify e) combineResp of
             Inl err \<Rightarrow> Throw err
           | Inr combineText \<Rightarrow>
               (case extractJsonFromString combineText of
                  Inl err \<Rightarrow> Throw err
                | Inr combineParsed \<Rightarrow>
                    if \<not> truthy combineParsed \<or> typeof combineParsed \<noteq> ''object''
                       \<or> \<not> truthy (member combineParsed (asc ''summary''))
                    then
                      Return (Reply 500
                        [(asc ''error'', JStr (asc ''Failed to parse combined summary from Gemini.'')),
                         (asc ''geminiRawResponse'', combineText)])
                    else
                      (case member combineParsed (asc ''summary'') of
                         JStr summary \<Rightarrow> Next (trim summary)
                       | _ \<Rightarrow> Throw (NotAFunction ''combineParsed.summary.trim'')))))"

text \<open>Lines 240-244: the cap and the reply, for a final summary that was reached.\<close>

definition respond :: "jsstring outcome \<Rightarrow> exn + reply" where
  "respond finalSummary =
     (case finalSummary of
        Next s \<Rightarrow> Inr (Reply 200 [(asc ''summary'', JStr (cap s))])
      | Return r \<Rightarrow> Inr r
      | Throw err \<Rightarrow> Inl err)"

text \<open>Lines 173-244: from the text extraction on.\<close>

definition summarize_document :: "env \<Rightarrow> buffer \<Rightarrow> (exn + reply) \<times> event list" where
  "summarize_document e buf =
     (case pdf e buf of
        Inl err \<Rightarrow> (Inl err, [PdfParse buf])
      | Inr data_text \<Rightarrow>
          let text = trim (case data_text of Some t \<Rightarrow> t | None \<Rightarrow> []) in
          if text = [] then
            (Inr (Reply 422
               [(asc ''error'',
                 JStr (asc ''No selectable text found in PDF. If the PDF is scanned, Kindly upload a text-based PDF.''))]),
             [PdfParse buf])
          else
            (case summarize_loop e (chunks text) [] [PdfParse buf] of
               (Return r, trace) \<Rightarrow> (Inr r, trace)
             | (Throw err, trace) \<Rightarrow> (Inl err, trace)
             | (Next chunkSummaries, trace) \<Rightarrow>
                 let finalSummary = join (asc ''\<newline>\<newline>'') chunkSummaries in
                 if length chunkSummaries > 1 then
                   (respond (combine e trace finalSummary),
                    trace @ [GenerateContent (combine_input finalSummary)])
                 else (respond (Next finalSummary), trace)))"

text \<open>Lines 155-171, the checks on the upload, and then the rest of the \<open>try\<close> block.\<close>

definition processPdf_try :: "env \<Rightarrow> multer_file option \<Rightarrow> (exn + reply) \<times> event list" where
  "processPdf_try e req_file =
     (case req_file of
        None \<Rightarrow> (Inr (Reply 400 [(asc ''error'', JStr (asc ''No PDF file provided.''))]), [])
      | Some f \<Rightarrow>
          if \<not> (mimetype f = Some (asc ''application/pdf'')
                \<or> (case originalname f of
                      None \<Rightarrow> False
                    | Some n \<Rightarrow> endsWith (toLowerCase (lower_non_ascii e) n) (asc ''.pdf'')))
          then (Inr (Reply 400 [(asc ''error'', JStr (asc ''Uploaded file is not a PDF.''))]), [])
          else if size_bytes f > 10 * 1024 * 1024 then
            (Inr (Reply 413 [(asc ''error'', JStr (asc ''PDF exceeds maximum size of 10MB.''))]), [])
          else summarize_document e (buffer f))"

text \<open>Lines 151-252: the handler with its \<open>catch\<close>.\<close>

definition processPdf :: "env \<Rightarrow> multer_file option \<Rightarrow> reply \<times> event list" where
  "processPdf e req_file =
     (case processPdf_try e req_file of
        (Inr r, trace) \<Rightarrow> (r, trace)
      | (Inl err, trace) \<Rightarrow>
          (Reply 500 [(asc ''error'', JStr (asc ''Failed to process PDF.'')),
                      (asc ''details'', JStr (details err))], trace))"

section \<open>Scenarios\<close>

text \<open>
  Concrete collaborators and uploads for the examples below. The scripted model answers
  the \<open>k\<close>-th model call of a request with an object whose \<open>text()\<close> returns the
  \<open>k\<close>-th text of a list (the empty string once the list is used up); the text
  extraction returns a fixed text.
\<close>

fun is_model_call :: "event \<Rightarrow> bool" where
  "is_model_call (GenerateContent i) = True"
| "is_model_call (PdfParse b) = False"

definition scripted_env :: "jsstring \<Rightarrow> jsstring list \<Rightarrow> env" where
  "scripted_env extracted answers =
     \<lparr>generateContent = (\<lambda>trace input.
        Inr (Callable (Inr (JStr (case drop (length (filter is_model_call trace)) answers of
                                    a # _ \<Rightarrow> a | [] \<Rightarrow> []))))),
      pdf = (\<lambda>buf. Inr (Some extracted)),
      JSON_stringify = (\<lambda>v. JUndefined),
      lower_non_ascii = (\<lambda>s i. [s ! i])\<rparr>"

definition pdf_upload :: multer_file where
  "pdf_upload = \<lparr>buffer = [], mimetype = Some (asc ''application/pdf''),
     originalname = Some (asc ''report.pdf''), size_bytes = 1024\<rparr>"

definition scan_upload :: multer_file where
  "scan_upload = \<lparr>buffer = [], mimetype = Some (asc ''application/octet-stream''),
     originalname = Some (asc ''Scan.PDF''), size_bytes = 1024\<rparr>"

definition image_upload :: multer_file where
  "image_upload = \<lparr>buffer = [], mimetype = Some (asc ''image/png''),
     originalname = Some (asc ''cat.png''), size_bytes = 1024\<rparr>"

text \<open>A text of 48001 code units: three chunks.\<close>

definition long_text :: jsstring where
  "long_text = replicate 48001 0x61"

text \<open>A model answer whose \<open>summary\<close> has 5000 code units.\<close>

definition long_answer :: jsstring where
  "long_answer = asc ''{\"summary\":\"'' @ replicate 5000 0x61 @ asc ''\"}''"

section \<open>Notions used in the proofs\<close>

text \<open>
  A code unit that can neither belong to a JSON token nor end one: white space of
  \<open>trim\<close>, or a backtick.
\<close>

definition inert :: "cu \<Rightarrow> bool" where
  "inert c \<longleftrightarrow> is_js_space c \<or> c = 0x60"

text \<open>Three backticks in a row somewhere in the text.\<close>

fun has_fence :: "jsstring \<Rightarrow> bool" where
  "has_fence [] = False"
| "has_fence (c # cs) = (startsWith (c # cs) (asc ''```'') \<or> has_fence cs)"

section \<open>Literals\<close>

lemma asc_eq_iff: "asc a = asc b \<longleftrightarrow> a = b"
proof -
  have "inj (\<lambda>c :: char. (of_nat (of_char c) :: cu))"
  proof (rule injI)
    fix x y :: char
    assume "(of_nat (of_char x) :: cu) = of_nat (of_char y)"
    then have "unat (of_nat (of_char x) :: cu) = unat (of_nat (of_char y) :: cu)"
      by simp
    moreover have "(of_char c :: nat) < 2 ^ LENGTH(16)" for c :: char
    proof -
      have "(of_char c :: nat) mod 256 < 256"
        by (rule mod_less_divisor) simp
      then have "(of_char c :: nat) < 256"
        by (simp only: of_char_mod_256)
      also have "(256 :: nat) < 2 ^ LENGTH(16)"
        by simp
      finally show ?thesis .
    qed
    ultimately have "(of_char x :: nat) = of_char y"
      by (simp add: unat_of_nat)
    then show "x = y"
      by simp
  qed
  then show ?thesis
    by (simp add: asc_def inj_map_eq_map)
qed

lemma asc_eq_Nil: "asc a = [] \<longleftrightarrow> a = []"
  by (simp add: asc_def)

section \<open>The chunk plan\<close>

declare chunk_loop.simps [simp del]

lemma CHUNK_SIZE_pos: "0 < CHUNK_SIZE"
  by (simp add: CHUNK_SIZE_def)

lemma slice_js_take_drop: "slice_js s i (i + n) = take n (drop i s)"
  by (cases "i \<le> length s") (auto simp: slice_js_def Let_def min_def)

lemma chunk_loop_acc: "chunk_loop doc i acc = acc @ chunk_loop doc i []"
proof (induction "length doc - i" arbitrary: i acc rule: less_induct)
  case less
  show ?case
  proof (cases "i < length doc")
    case True
    let ?c = "slice_js doc i (i + CHUNK_SIZE)"
    have a: "chunk_loop doc i a = chunk_loop doc (i + CHUNK_SIZE) (a @ [?c])" for a
      using True by (subst chunk_loop.simps) simp
    have "length doc - (i + CHUNK_SIZE) < length doc - i"
      using True CHUNK_SIZE_pos by simp
    then have b: "chunk_loop doc (i + CHUNK_SIZE) a = a @ chunk_loop doc (i + CHUNK_SIZE) []" for a
      by (rule less)
    show ?thesis
      by (simp add: a b [of "acc @ [?c]"] b [of "[?c]"])
  next
    case False
    then show ?thesis by (simp add: chunk_loop.simps)
  qed
qed

lemma chunk_loop_step:
  "i < length doc \<Longrightarrow>
   chunk_loop doc i [] = take CHUNK_SIZE (drop i doc) # chunk_loop doc (i + CHUNK_SIZE) []"
  by (subst chunk_loop.simps, subst chunk_loop_acc) (simp add: slice_js_take_drop)

lemma chunk_loop_stop: "length doc \<le> i \<Longrightarrow> chunk_loop doc i [] = []"
  by (subst chunk_loop.simps) simp

lemma concat_chunk_loop: "concat (chunk_loop doc i []) = drop i doc"
proof (induction "length doc - i" arbitrary: i rule: less_induct)
  case less
  show ?case
  proof (cases "i < length doc")
    case True
    then have "length doc - (i + CHUNK_SIZE) < length doc - i"
      using CHUNK_SIZE_pos by simp
    then have "concat (chunk_loop doc (i + CHUNK_SIZE) []) = drop (i + CHUNK_SIZE) doc"
      by (rule less)
    then show ?thesis
      using True by (simp add: chunk_loop_step add.commute [of i] flip: drop_drop)
  next
    case False
    then show ?thesis by (simp add: chunk_loop_stop)
  qed
qed

lemma ceil_div_step:
  fixes c :: nat
  assumes "0 < c" "i < n"
  shows "(n - i + (c - 1)) div c = Suc ((n - (i + c) + (c - 1)) div c)"
proof (cases "i + c \<le> n")
  case True
  define y where "y = n - (i + c) + (c - 1)"
  have "n - i + (c - 1) = y + c"
    using True by (simp add: y_def)
  moreover have "(y + c) div c = Suc (y div c)"
    using assms(1) by simp
  ultimately have "(n - i + (c - 1)) div c = Suc (y div c)"
    by (rule ssubst)
  then show ?thesis
    unfolding y_def .
next
  case False
  define z where "z = n - i + (c - 1)"
  have "c \<le> z" "z < 2 * c"
    using False assms by (simp_all add: z_def)
  then have a: "z div c = 1"
    by (intro div_nat_eqI) simp_all
  have b: "(n - (i + c) + (c - 1)) div c = 0"
    using False assms(1) by simp
  show ?thesis
    unfolding z_def [symmetric] a b by simp
qed

lemma length_chunk_loop:
  "length (chunk_loop doc i []) = (length doc - i + (CHUNK_SIZE - 1)) div CHUNK_SIZE"
proof (induction "length doc - i" arbitrary: i rule: less_induct)
  case less
  show ?case
  proof (cases "i < length doc")
    case True
    then have "length doc - (i + CHUNK_SIZE) < length doc - i"
      using CHUNK_SIZE_pos by simp
    then have "length (chunk_loop doc (i + CHUNK_SIZE) [])
        = (length doc - (i + CHUNK_SIZE) + (CHUNK_SIZE - 1)) div CHUNK_SIZE"
      by (rule less)
    then show ?thesis
      using True ceil_div_step [OF CHUNK_SIZE_pos True] by (simp add: chunk_loop_step)
  next
    case False
    then show ?thesis using CHUNK_SIZE_pos by (simp add: chunk_loop_stop)
  qed
qed

lemma nth_chunk_loop:
  "k < length (chunk_loop doc i []) \<Longrightarrow>
   chunk_loop doc i [] ! k = take CHUNK_SIZE (drop (i + k * CHUNK_SIZE) doc)"
proof (induction k arbitrary: i)
  case 0
  then have "i < length doc"
    using chunk_loop_stop [of doc i] by (cases "i < length doc") auto
  then show ?case by (simp add: chunk_loop_step)
next
  case (Suc k)
  then have i: "i < length doc"
    using chunk_loop_stop [of doc i] by (cases "i < length doc") auto
  with Suc.prems have "k < length (chunk_loop doc (i + CHUNK_SIZE) [])"
    by (simp add: chunk_loop_step)
  then have "chunk_loop doc (i + CHUNK_SIZE) [] ! k
      = take CHUNK_SIZE (drop (i + CHUNK_SIZE + k * CHUNK_SIZE) doc)"
    by (rule Suc.IH)
  then show ?case using i by (simp add: chunk_loop_step add.assoc)
qed

lemma length_chunks: "length (chunks doc) = (length doc + (CHUNK_SIZE - 1)) div CHUNK_SIZE"
  by (simp add: chunks_def length_chunk_loop)

lemma nth_chunks:
  "k < length (chunks doc) \<Longrightarrow> chunks doc ! k = take CHUNK_SIZE (drop (k * CHUNK_SIZE) doc)"
  using nth_chunk_loop [of k doc 0] by (simp add: chunks_def)

lemma chunk_start_in_doc:
  assumes "k < length (chunks doc)"
  shows "k * CHUNK_SIZE < length doc"
proof -
  have "Suc k \<le> (length doc + (CHUNK_SIZE - 1)) div CHUNK_SIZE"
    using assms by (simp add: length_chunks)
  then have "Suc k * CHUNK_SIZE \<le> length doc + (CHUNK_SIZE - 1)"
    using CHUNK_SIZE_pos by (simp add: less_eq_div_iff_mult_less_eq)
  then show ?thesis
    using CHUNK_SIZE_pos by simp
qed

lemma length_nth_chunks:
  "k < length (chunks doc) \<Longrightarrow>
   length (chunks doc ! k) = min CHUNK_SIZE (length doc - k * CHUNK_SIZE)"
  by (simp add: nth_chunks min.commute)

lemma chunks_nonempty: "doc \<noteq> [] \<Longrightarrow> chunks doc \<noteq> []"
  using CHUNK_SIZE_pos by (simp add: chunks_def chunk_loop_step)

text \<open>
  C1: for every non-empty extracted text the chunk loop yields, in order, the slices
  \<open>[k * 24000, k * 24000 + 24000)\<close> of the text: they concatenate to the text, all but
  the last have 24000 code units, the last has between 1 and 24000. A text of 24000 code
  units gives 1 chunk, one of 24001 gives 2, the second of length 1.
\<close>

theorem chunks_plan:
  assumes "doc \<noteq> []"
  shows "concat (chunks doc) = doc
    \<and> length (chunks doc) = (length doc + 23999) div 24000
    \<and> (\<forall>k < length (chunks doc).
          chunks doc ! k = slice_js doc (k * 24000) (k * 24000 + 24000))
    \<and> (\<forall>k. Suc k < length (chunks doc) \<longrightarrow> length (chunks doc ! k) = 24000)
    \<and> 0 < length (last (chunks doc)) \<and> length (last (chunks doc)) \<le> 24000
    \<and> (length doc = 24000 \<longrightarrow> length (chunks doc) = 1)
    \<and> (length doc = 24001 \<longrightarrow> length (chunks doc) = 2 \<and> length (chunks doc ! 1) = 1)"
proof -
  have cover: "concat (chunks doc) = doc"
    by (simp add: chunks_def concat_chunk_loop)
  have count: "length (chunks doc) = (length doc + 23999) div 24000"
    by (simp add: length_chunks CHUNK_SIZE_def)
  have slices: "\<forall>k < length (chunks doc).
      chunks doc ! k = slice_js doc (k * 24000) (k * 24000 + 24000)"
    by (simp add: nth_chunks slice_js_take_drop CHUNK_SIZE_def)
  have full: "length (chunks doc ! k) = 24000" if "Suc k < length (chunks doc)" for k
  proof -
    have "Suc k * CHUNK_SIZE < length doc"
      using that by (rule chunk_start_in_doc)
    then show ?thesis
      using that by (simp add: length_nth_chunks CHUNK_SIZE_def)
  qed
  have ne: "chunks doc \<noteq> []"
    using assms by (rule chunks_nonempty)
  then have last_idx: "length (chunks doc) - 1 < length (chunks doc)"
    by simp
  have last_eq: "last (chunks doc) = chunks doc ! (length (chunks doc) - 1)"
    using ne by (rule last_conv_nth)
  have "(length (chunks doc) - 1) * CHUNK_SIZE < length doc"
    using last_idx by (rule chunk_start_in_doc)
  then have last_len:
    "0 < length (last (chunks doc))" "length (last (chunks doc)) \<le> 24000"
    unfolding last_eq length_nth_chunks [OF last_idx]
    by (simp_all add: CHUNK_SIZE_def)
  have one: "length (chunks doc) = 1" if "length doc = 24000"
    using that by (simp add: count)
  have two: "length (chunks doc) = 2 \<and> length (chunks doc ! 1) = 1" if "length doc = 24001"
  proof -
    have n: "length (chunks doc) = 2"
      using that by (simp add: count)
    then have "length (chunks doc ! 1) = min CHUNK_SIZE (length doc - 1 * CHUNK_SIZE)"
      by (intro length_nth_chunks) simp
    then show ?thesis
      using n that by (simp add: CHUNK_SIZE_def)
  qed
  show ?thesis
    using cover count slices full last_len one two by blast
qed

theorem chunks_plan_witness:
  "chunks (asc ''abc'') = [asc ''abc'']
   \<and> length (chunks (replicate 24000 (0x61 :: cu))) = 1
   \<and> length (chunks (replicate 24001 (0x61 :: cu))) = 2
   \<and> length (chunks (replicate 24001 (0x61 :: cu)) ! 1) = 1"
proof -
  have a: "asc ''abc'' \<noteq> []"
    by (simp add: asc_def)
  have "concat (chunks (asc ''abc'')) = asc ''abc''" "length (chunks (asc ''abc'')) = 1"
    using chunks_plan [OF a] by (simp_all add: asc_def)
  then have 1: "chunks (asc ''abc'') = [asc ''abc'']"
    by (cases "chunks (asc ''abc'')") simp_all
  have b: "replicate 24000 (0x61 :: cu) \<noteq> []"
    by simp
  have 2: "length (chunks (replicate 24000 (0x61 :: cu))) = 1"
    using chunks_plan [OF b] by simp
  have c: "replicate 24001 (0x61 :: cu) \<noteq> []"
    by simp
  have 3: "length (chunks (replicate 24001 (0x61 :: cu))) = 2
      \<and> length (chunks (replicate 24001 (0x61 :: cu)) ! 1) = 1"
    using chunks_plan [OF c] by (simp add: slice_js_def)
  show ?thesis
    using 1 2 3 by simp
qed

section \<open>Recovering JSON\<close>

subsection \<open>Appending a code unit that belongs to no token\<close>

text \<open>
  The scanners read a token from the front of the text and return the rest. A white space
  code unit or a backtick at the very end of the text is never part of the token: the
  scanner gives the same token for the text without it, and the rest without it.
\<close>

lemma inert_unat:
  "inert c \<Longrightarrow> unat c \<in> {9, 10, 11, 12, 13, 32, 96} \<or> 160 \<le> unat c"
  by (auto simp: inert_def is_js_space_def word_le_nat_alt)

lemma inert_not_digit: "inert c \<Longrightarrow> \<not> is_digit c"
  by (drule inert_unat) (auto simp: is_digit_def word_le_nat_alt)

lemma inert_hex: "inert c \<Longrightarrow> hex_value c = None"
  by (drule inert_unat) (auto simp: hex_value_def word_le_nat_alt)

lemma inert_unescape: "inert c \<Longrightarrow> unescape c = None"
  by (drule inert_unat) (auto simp: unescape_def)

lemma inert_neq:
  assumes "inert c"
  shows "c \<noteq> 0x22" "c \<noteq> 0x5C" "c \<noteq> 0x75" "c \<noteq> 0x2D" "c \<noteq> 0x2B" "c \<noteq> 0x2E"
    "c \<noteq> 0x65" "c \<noteq> 0x45" "c \<noteq> 0x7B" "c \<noteq> 0x7D" "c \<noteq> 0x5B" "c \<noteq> 0x5D"
    "c \<noteq> 0x3A" "c \<noteq> 0x2C" "c \<noteq> 0x74" "c \<noteq> 0x66" "c \<noteq> 0x6E" "c \<noteq> 0x6C" "c \<noteq> 0x73"
    "c \<noteq> 0x72" "c \<noteq> 0x61"
  using inert_unat [OF assms] by auto

lemma scan_escape_snoc:
  assumes "inert c" and "scan_escape (x @ [c]) = Some (u, r)"
  shows "\<exists>r'. r = r' @ [c] \<and> scan_escape x = Some (u, r')"
proof (cases x)
  case Nil
  with assms show ?thesis
    by (simp add: inert_unescape inert_neq)
next
  case (Cons e y)
  show ?thesis
  proof (cases "e = 0x75")
    case False
    with assms Cons show ?thesis
      by auto
  next
    case True
    note u = this
    show ?thesis
    proof (cases "length y < 4")
      case True
      then consider "y = []" | a where "y = [a]" | a b where "y = [a, b]"
        | a b d where "y = [a, b, d]"
        by (cases y; cases "tl y"; cases "tl (tl y)"; cases "tl (tl (tl y))") auto
      then show ?thesis
        using assms Cons u by cases (auto simp: inert_hex split: option.splits)
    next
      case False
      then obtain h1 h2 h3 h4 y' where "y = h1 # h2 # h3 # h4 # y'"
        by (cases y; cases "tl y"; cases "tl (tl y)"; cases "tl (tl (tl y))") auto
      with assms Cons u show ?thesis
        by (auto split: option.splits)
    qed
  qed
qed

lemma scan_string_snoc:
  assumes "inert c"
  shows "scan_string (x @ [c]) = Some (str, r) \<Longrightarrow>
    \<exists>r'. r = r' @ [c] \<and> scan_string x = Some (str, r')"
proof (induction x arbitrary: str r rule: scan_string.induct)
  case 1
  then show ?case
    using assms by (auto simp: inert_neq split: if_splits)
next
  case (2 d ds)
  show ?case
  proof (cases "d = 0x22")
    case True
    with "2.prems" show ?thesis by simp
  next
    case nq: False
    show ?thesis
    proof (cases "d = 0x5C")
      case True
      with "2.prems" nq obtain u r0 str0 where
        esc: "scan_escape (ds @ [c]) = Some (u, r0)" and
        rec: "scan_string r0 = Some (str0, r)" and str: "str = u # str0"
        by (auto split: option.splits)
      from scan_escape_snoc [OF assms esc] obtain r1 where
        r1: "r0 = r1 @ [c]" "scan_escape ds = Some (u, r1)"
        by blast
      from "2.IH"(1) [OF nq True r1(2) refl rec [unfolded r1(1)]] obtain r' where
        "r = r' @ [c]" "scan_string r1 = Some (str0, r')"
        by blast
      then show ?thesis
        using nq True r1 str by simp
    next
      case False
      with "2.prems" nq obtain str0 where
        lo: "\<not> d < 0x20" and rec: "scan_string (ds @ [c]) = Some (str0, r)" and
        str: "str = d # str0"
        by (auto split: if_splits)
      from "2.IH"(2) [OF nq False lo rec] obtain r' where
        "r = r' @ [c]" "scan_string ds = Some (str0, r')"
        by blast
      then show ?thesis
        using nq False lo str by simp
    qed
  qed
qed


lemma takeWhile_snoc: "\<not> P c \<Longrightarrow> takeWhile P (xs @ [c]) = takeWhile P xs"
  by (induction xs) auto

lemma dropWhile_snoc: "\<not> P c \<Longrightarrow> dropWhile P (xs @ [c]) = dropWhile P xs @ [c]"
  by (induction xs) auto

lemma scan_frac_snoc:
  assumes "inert c" and "scan_frac (y @ [c]) = Some (f, r)"
  shows "\<exists>r'. r = r' @ [c] \<and> scan_frac y = Some (f, r')"
proof (cases y)
  case Nil
  with assms show ?thesis
    by (simp add: scan_frac_def inert_neq)
next
  case (Cons d y')
  with assms show ?thesis
    by (auto simp: scan_frac_def Let_def takeWhile_snoc dropWhile_snoc inert_not_digit
             split: if_splits)
qed

lemma scan_exp_snoc:
  assumes "inert c" and "scan_exp (y @ [c]) = Some (p, r)"
  shows "\<exists>r'. r = r' @ [c] \<and> scan_exp y = Some (p, r')"
proof (cases y)
  case Nil
  with assms show ?thesis
    by (simp add: scan_exp_def inert_neq)
next
  case (Cons d y')
  show ?thesis
  proof (cases y')
    case Nil
    with assms Cons show ?thesis
      by (auto simp: scan_exp_def Let_def inert_not_digit inert_neq split: if_splits)
  next
    case (Cons g t)
    with assms \<open>y = d # y'\<close> show ?thesis
      by (auto simp: scan_exp_def Let_def takeWhile_snoc dropWhile_snoc inert_not_digit
               split: if_splits)
  qed
qed

lemma startsWith_length:
  assumes "startsWith x p"
  shows "length p \<le> length x"
proof -
  from assms have "length (take (length p) x) = length p"
    by (simp only: startsWith_def)
  then show ?thesis
    by simp
qed

lemma startsWith_snoc:
  assumes "c \<notin> set p"
  shows "startsWith (x @ [c]) p \<longleftrightarrow> startsWith x p"
proof (cases "length p \<le> length x")
  case True
  then show ?thesis by (simp add: startsWith_def)
next
  case False
  have "\<not> startsWith x p"
    using False startsWith_length by blast
  moreover have "\<not> startsWith (x @ [c]) p"
  proof
    assume a: "startsWith (x @ [c]) p"
    from False have "take (length p) (x @ [c]) = x @ [c]"
      by simp
    with a have "x @ [c] = p"
      by (simp only: startsWith_def)
    then have "c \<in> set p"
      by auto
    with assms show False
      by simp
  qed
  ultimately show ?thesis
    by simp
qed

lemma scan_number_snoc:
  assumes c: "inert c" and sc: "scan_number (x @ [c]) = Some (n, r)"
  shows "\<exists>r'. r = r' @ [c] \<and> scan_number x = Some (n, r')"
proof -
  define neg where "neg = (case x of m # _ \<Rightarrow> m = 0x2D | [] \<Rightarrow> False)"
  define s1 where "s1 = (if neg then tl x else x)"
  have neg': "(case x @ [c] of m # _ \<Rightarrow> m = 0x2D | [] \<Rightarrow> False) = neg"
    using c by (cases x) (simp_all add: neg_def inert_neq)
  have s1': "(if neg then tl (x @ [c]) else x @ [c]) = s1 @ [c]"
    by (cases x) (auto simp: s1_def neg_def)
  have tw: "takeWhile is_digit (s1 @ [c]) = takeWhile is_digit s1"
    and dw: "dropWhile is_digit (s1 @ [c]) = dropWhile is_digit s1 @ [c]"
    using c by (simp_all add: takeWhile_snoc dropWhile_snoc inert_not_digit)
  let ?ds = "takeWhile is_digit s1"
  from sc obtain f s2 p where
    ok: "\<not> (?ds = [] \<or> hd ?ds = 0x30 \<and> length ?ds > 1)" and
    fr: "scan_frac (dropWhile is_digit s1 @ [c]) = Some (f, s2)" and
    ex: "scan_exp s2 = Some (p, r)" and
    n: "n = number_value ((if neg then -1 else 1) * (of_nat (digits_value ?ds) + f) * p)"
    unfolding scan_number_def Let_def neg' s1' tw dw
    by (auto split: if_splits option.splits)
  from scan_frac_snoc [OF c fr] obtain s2' where
    s2: "s2 = s2' @ [c]" "scan_frac (dropWhile is_digit s1) = Some (f, s2')"
    by blast
  from scan_exp_snoc [OF c ex [unfolded s2(1)]] obtain r' where
    r: "r = r' @ [c]" "scan_exp s2' = Some (p, r')"
    by blast
  have "scan_number x = Some (n, r')"
    unfolding scan_number_def Let_def neg_def [symmetric] s1_def [symmetric]
    using ok s2(2) r(2) n by simp
  with r(1) show ?thesis
    by blast
qed

lemma drop_snoc_le: "k \<le> length xs \<Longrightarrow> drop k (xs @ [c]) = drop k xs @ [c]"
  by simp

lemma next_token_literal:
  assumes "d \<notin> {0x7B, 0x7D, 0x5B, 0x5D, 0x3A, 0x2C, 0x22}" "\<not> (d = 0x2D \<or> is_digit d)"
    and "s = d # z"
  shows "next_token s =
    (if startsWith s (asc ''true'') then Some (TTrue, drop 4 s)
     else if startsWith s (asc ''false'') then Some (TFalse, drop 5 s)
     else if startsWith s (asc ''null'') then Some (TNull, drop 4 s)
     else None)"
  using assms by (simp add: next_token_def)

lemma next_token_snoc:
  assumes c: "inert c" and nt: "next_token (x @ [c]) = Some (t, r)"
  shows "\<exists>r'. r = r' @ [c] \<and> next_token x = Some (t, r')"
proof (cases x)
  case Nil
  have "\<not> startsWith [c] (asc ''true'')" "\<not> startsWith [c] (asc ''false'')"
    "\<not> startsWith [c] (asc ''null'')"
    by (simp_all add: startsWith_def asc_def)
  with nt Nil c show ?thesis
    by (simp add: next_token_def inert_neq inert_not_digit)
next
  case (Cons d y)
  consider (punct) "d \<in> {0x7B, 0x7D, 0x5B, 0x5D, 0x3A, 0x2C}"
    | (str) "d = 0x22"
    | (num) "d \<notin> {0x7B, 0x7D, 0x5B, 0x5D, 0x3A, 0x2C, 0x22}" "d = 0x2D \<or> is_digit d"
    | (lit) "d \<notin> {0x7B, 0x7D, 0x5B, 0x5D, 0x3A, 0x2C, 0x22}" "\<not> (d = 0x2D \<or> is_digit d)"
    by blast
  then show ?thesis
  proof cases
    case punct
    with nt Cons show ?thesis
      by (auto simp: next_token_def split: if_splits)
  next
    case str
    with nt Cons obtain s0 where "scan_string (y @ [c]) = Some (s0, r)" "t = TString s0"
      by (auto simp: next_token_def)
    with scan_string_snoc [OF c this(1)] str Cons show ?thesis
      by (auto simp: next_token_def)
  next
    case num
    with nt Cons obtain n0 where "scan_number ((d # y) @ [c]) = Some (n0, r)" "t = TNumber n0"
      by (auto simp: next_token_def)
    with scan_number_snoc [OF c this(1)] num Cons show ?thesis
      by (auto simp: next_token_def)
  next
    case lit
    have sw: "startsWith (x @ [c]) (asc w) \<longleftrightarrow> startsWith x (asc w)"
      if "w \<in> {''true'', ''false'', ''null''}" for w
      using that inert_neq [OF c] by (intro startsWith_snoc) (auto simp: asc_def)
    have dr: "drop k (x @ [c]) = drop k x @ [c]" if "startsWith x p" "length p = k" for k p
      using startsWith_length [OF that(1)] that(2) by (intro drop_snoc_le) simp
    have len: "length (asc ''true'') = 4" "length (asc ''false'') = 5" "length (asc ''null'') = 4"
      by (simp_all add: asc_def)
    have xc: "x @ [c] = d # (y @ [c])"
      using Cons by simp
    have a: "next_token (x @ [c]) =
      (if startsWith x (asc ''true'') then Some (TTrue, drop 4 (x @ [c]))
       else if startsWith x (asc ''false'') then Some (TFalse, drop 5 (x @ [c]))
       else if startsWith x (asc ''null'') then Some (TNull, drop 4 (x @ [c]))
       else None)"
      using next_token_literal [OF lit xc]
      unfolding sw [of "''true''", simplified] sw [of "''false''", simplified]
        sw [of "''null''", simplified] .
    have b: "next_token x =
      (if startsWith x (asc ''true'') then Some (TTrue, drop 4 x)
       else if startsWith x (asc ''false'') then Some (TFalse, drop 5 x)
       else if startsWith x (asc ''null'') then Some (TNull, drop 4 x)
       else None)"
      using lit Cons by (intro next_token_literal)
    consider (T) "startsWith x (asc ''true'')"
      | (F) "\<not> startsWith x (asc ''true'')" "startsWith x (asc ''false'')"
      | (N) "\<not> startsWith x (asc ''true'')" "\<not> startsWith x (asc ''false'')"
          "startsWith x (asc ''null'')"
      | (none) "\<not> startsWith x (asc ''true'')" "\<not> startsWith x (asc ''false'')"
          "\<not> startsWith x (asc ''null'')"
      by blast
    then show ?thesis
    proof cases
      case T
      with nt a b dr [OF T len(1)] show ?thesis by simp
    next
      case F
      with nt a b dr [OF F(2) len(2)] show ?thesis by simp
    next
      case N
      with nt a b dr [OF N(3) len(3)] show ?thesis by simp
    next
      case none
      with nt a show ?thesis by simp
    qed
  qed
qed

lemma tokenize_snoc:
  assumes c: "inert c"
  shows "tokenize (x @ [c]) = Some ts \<Longrightarrow> tokenize x = Some ts \<and> is_json_ws c"
proof (induction x arbitrary: ts rule: tokenize.induct)
  case 1
  have "next_token [c] = None"
    using next_token_snoc [OF c, of "[]"] by (cases "next_token [c]") (auto simp: next_token_def)
  with "1.prems" show ?case
    by (auto split: if_splits)
next
  case (2 d ds)
  show ?case
  proof (cases "is_json_ws d")
    case True
    with "2.prems" "2.IH"(1) show ?thesis by simp
  next
    case False
    with "2.prems" obtain t r ts0 where
      nt: "next_token ((d # ds) @ [c]) = Some (t, r)" and
      rec: "tokenize r = Some ts0" and ts: "ts = t # ts0"
      by (auto split: option.splits)
    from next_token_snoc [OF c nt] obtain r' where
      r: "r = r' @ [c]" "next_token (d # ds) = Some (t, r')"
      by blast
    from "2.IH"(2) [OF False r(2) refl rec [unfolded r(1)]]
    have "tokenize r' = Some ts0 \<and> is_json_ws c" .
    with False r(2) ts show ?thesis by simp
  qed
qed

subsection \<open>Trimming keeps the tokens\<close>

text \<open>
  A text that tokenizes has only JSON white space at its ends, so \<open>trim\<close>, which
  strips more kinds of white space, takes away nothing else; and a text that tokenizes
  neither starts with a backtick or a \<open>j\<close> nor ends with a backtick.
\<close>

lemma inert_next_token: "inert c \<Longrightarrow> next_token (c # cs) = None"
  by (simp add: next_token_def inert_neq inert_not_digit startsWith_def asc_def)

lemma tokenize_dropWhile_space:
  "tokenize s = Some ts \<Longrightarrow> tokenize (dropWhile is_js_space s) = Some ts"
proof (induction s)
  case Nil
  then show ?case by simp
next
  case (Cons c cs)
  show ?case
  proof (cases "is_js_space c")
    case True
    then have "inert c"
      by (simp add: inert_def)
    then have "next_token (c # cs) = None"
      by (rule inert_next_token)
    with Cons.prems have "tokenize cs = Some ts"
      by (simp split: if_splits)
    with Cons.IH True show ?thesis
      by simp
  next
    case False
    with Cons.prems show ?thesis by simp
  qed
qed

lemma tokenize_trim_end:
  "tokenize s = Some ts \<Longrightarrow> tokenize (rev (dropWhile is_js_space (rev s))) = Some ts"
proof (induction s rule: rev_induct)
  case Nil
  then show ?case by simp
next
  case (snoc c s)
  show ?case
  proof (cases "is_js_space c")
    case True
    then have "inert c"
      by (simp add: inert_def)
    from tokenize_snoc [OF this snoc.prems] have "tokenize s = Some ts"
      by simp
    with snoc.IH True show ?thesis
      by simp
  next
    case False
    with snoc.prems show ?thesis by simp
  qed
qed

lemma tokenize_trim: "tokenize s = Some ts \<Longrightarrow> tokenize (trim s) = Some ts"
  unfolding trim_def by (intro tokenize_trim_end tokenize_dropWhile_space)

lemma JSON_parse_trim: "JSON_parse s = Inr v \<Longrightarrow> JSON_parse (trim s) = Inr v"
  by (auto simp: JSON_parse_def tokenize_trim split: option.splits)

lemma tokenize_first:
  assumes "tokenize (c # cs) = Some ts"
  shows "c \<noteq> 0x60" "c \<noteq> 0x6A"
proof -
  have "tokenize (0x60 # cs) = None" "tokenize (0x6A # cs) = None"
    by (simp_all add: is_json_ws_def next_token_def is_digit_def startsWith_def asc_def)
  with assms show "c \<noteq> 0x60" "c \<noteq> 0x6A"
    by auto
qed

lemma tokenize_last:
  assumes "tokenize s = Some ts" "s \<noteq> []"
  shows "last s \<noteq> 0x60"
proof
  assume "last s = 0x60"
  with assms(2) have s: "s = butlast s @ [0x60]"
    by (metis append_butlast_last_id)
  have "inert 0x60"
    by (simp add: inert_def)
  from tokenize_snoc [OF this, of "butlast s" ts] assms(1) s have "is_json_ws 0x60"
    by simp
  then show False
    by (simp add: is_json_ws_def)
qed

lemma JSON_parse_nonempty: "JSON_parse s = Inr v \<Longrightarrow> s \<noteq> []"
  by (auto simp: JSON_parse_def)

subsection \<open>White space around a text\<close>

lemma trim_padded:
  assumes "\<forall>c \<in> set pad1. is_js_space c" "\<forall>c \<in> set pad2. is_js_space c"
  shows "trim (pad1 @ s @ pad2) = trim s"
proof -
  have lead: "dropWhile is_js_space (pad1 @ s @ pad2) = dropWhile is_js_space (s @ pad2)"
    using assms(1) by (simp add: dropWhile_append2)
  have tail: "rev (dropWhile is_js_space (rev (t @ pad2))) = rev (dropWhile is_js_space (rev t))"
    for t
  proof -
    have "dropWhile is_js_space (rev pad2 @ rev t) = dropWhile is_js_space (rev t)"
      using assms(2) by (intro dropWhile_append2) simp
    then show ?thesis
      by simp
  qed
  show ?thesis
  proof (cases "\<forall>c \<in> set s. is_js_space c")
    case True
    with assms(2) have e: "dropWhile is_js_space (s @ pad2) = []" "dropWhile is_js_space s = []"
      by auto
    show ?thesis
      by (simp only: trim_def lead e)
  next
    case False
    then obtain x where "x \<in> set s" "\<not> is_js_space x"
      by blast
    then have "dropWhile is_js_space (s @ pad2) = dropWhile is_js_space s @ pad2"
      by (rule dropWhile_append1)
    then show ?thesis
      by (simp only: trim_def lead tail)
  qed
qed

subsection \<open>Removing the fence markers\<close>

lemma fence_eq: "asc ''```'' = [0x60, 0x60, 0x60]"
  by (simp add: asc_def)

lemma fence_json_eq: "asc ''```json'' = asc ''```'' @ asc ''json''"
  by (simp add: asc_def)

lemma startsWith_append: "startsWith (p @ s) (p @ q) \<longleftrightarrow> startsWith s q"
  by (simp add: startsWith_def)

lemma startsWith_prefix: "startsWith s (p @ q) \<Longrightarrow> startsWith s p"
  by (metis startsWith_def append_eq_conv_conj take_append length_take min.absorb2
        startsWith_length length_append le_add1 le_trans take_take)

lemma has_fence_iff: "has_fence s \<longleftrightarrow> (\<exists>pre post. s = pre @ asc ''```'' @ post)"
proof
  show "has_fence s \<Longrightarrow> \<exists>pre post. s = pre @ asc ''```'' @ post"
  proof (induction s)
    case Nil
    then show ?case by simp
  next
    case (Cons c cs)
    show ?case
    proof (cases "startsWith (c # cs) (asc ''```'')")
      case True
      then have "c # cs = [] @ asc ''```'' @ drop (length (asc ''```'')) (c # cs)"
        by (metis startsWith_def append_Nil append_take_drop_id)
      then show ?thesis by blast
    next
      case False
      with Cons obtain pre post where "cs = pre @ asc ''```'' @ post"
        by auto
      then have "c # cs = (c # pre) @ asc ''```'' @ post"
        by simp
      then show ?thesis by blast
    qed
  qed
next
  assume "\<exists>pre post. s = pre @ asc ''```'' @ post"
  then obtain pre post where "s = pre @ asc ''```'' @ post"
    by blast
  then show "has_fence s"
  proof (induction pre arbitrary: s)
    case Nil
    then show ?case
      by (simp add: fence_eq startsWith_def)
  next
    case (Cons a pre)
    then show ?case by simp
  qed
qed

lemma has_fence_Cons: "c \<noteq> 0x60 \<Longrightarrow> has_fence (c # s) = has_fence s"
  by (simp add: startsWith_def fence_eq)

lemma has_fence_snoc: "c \<noteq> 0x60 \<Longrightarrow> has_fence (s @ [c]) = has_fence s"
proof (induction s)
  case Nil
  then show ?case by (simp add: startsWith_def fence_eq)
next
  case (Cons a s)
  have "startsWith ((a # s) @ [c]) (asc ''```'') = startsWith (a # s) (asc ''```'')"
    using Cons.prems by (intro startsWith_snoc) (simp add: fence_eq)
  with Cons show ?case by simp
qed

lemma has_fence_padded:
  assumes "\<forall>c \<in> set pad1. is_js_space c" "\<forall>c \<in> set pad2. is_js_space c"
  shows "has_fence (pad1 @ s @ pad2) = has_fence s"
proof -
  have sp: "c \<noteq> 0x60" if "is_js_space c" for c
    using that by (auto simp: is_js_space_def)
  have "has_fence (s @ pad2) = has_fence s"
    using assms(2)
  proof (induction pad2 rule: rev_induct)
    case Nil
    then show ?case by simp
  next
    case (snoc c pad2)
    then have "has_fence ((s @ pad2) @ [c]) = has_fence (s @ pad2)"
      by (intro has_fence_snoc sp) simp
    with snoc show ?case by simp
  qed
  moreover have "has_fence (pad1 @ t) = has_fence t" for t
    using assms(1)
  proof (induction pad1)
    case Nil
    then show ?case by simp
  next
    case (Cons a pad1)
    then have "has_fence (a # (pad1 @ t)) = has_fence (pad1 @ t)"
      by (intro has_fence_Cons sp) simp
    with Cons show ?case by simp
  qed
  ultimately show ?thesis by simp
qed

lemma no_fence_replace_all:
  assumes "\<not> has_fence s" "\<forall>p \<in> set alts. startsWith p (asc ''```'')"
  shows "replace_all alts s = s"
  using assms(1)
proof (induction s)
  case Nil
  then show ?case by simp
next
  case (Cons c cs)
  have "\<not> startsWith (c # cs) p" if "p \<in> set alts" for p
  proof
    assume a: "startsWith (c # cs) p"
    from that assms(2) have "startsWith p (asc ''```'')"
      by blast
    then have "p = asc ''```'' @ drop 3 p"
      by (metis startsWith_def append_take_drop_id fence_eq length_Cons list.size(3)
            numeral_3_eq_3)
    with a have "startsWith (c # cs) (asc ''```'')"
      by (metis startsWith_prefix)
    with Cons.prems show False by simp
  qed
  then have "find (\<lambda>p. p \<noteq> [] \<and> startsWith (c # cs) p) alts = None"
    by (simp add: find_None_iff)
  with Cons show ?case by simp
qed

lemma no_fence_at_end:
  assumes "m \<noteq> []" "last m \<noteq> 0x60" "\<not> startsWith m (asc ''```'')"
  shows "\<not> startsWith (m @ asc ''```'') (asc ''```'')"
proof (cases "3 \<le> length m")
  case True
  with assms(3) show ?thesis
    by (simp add: startsWith_def fence_eq)
next
  case False
  with assms(1) consider a where "m = [a]" | a b where "m = [a, b]"
    by (cases m; cases "tl m"; cases "tl (tl m)") auto
  then show ?thesis
    using assms(2) by cases (auto simp: startsWith_def fence_eq)
qed

lemma replace_all_closing_fence:
  assumes "\<not> has_fence m" "m = [] \<or> last m \<noteq> 0x60"
  shows "replace_all [asc ''```json'', asc ''```''] (m @ asc ''```'') = m"
  using assms
proof (induction m)
  case Nil
  have "\<not> startsWith (asc ''```'') (asc ''```json'')" "startsWith (asc ''```'') (asc ''```'')"
    by (simp_all add: startsWith_def asc_def)
  then show ?case
    by (simp add: fence_eq)
next
  case (Cons c m)
  have nf: "\<not> startsWith ((c # m) @ asc ''```'') (asc ''```'')"
    using Cons.prems by (intro no_fence_at_end) auto
  then have "\<not> startsWith ((c # m) @ asc ''```'') (asc ''```json'')"
    unfolding fence_json_eq using startsWith_prefix by blast
  with nf have "find (\<lambda>p. p \<noteq> [] \<and> startsWith (c # m @ asc ''```'') p)
      [asc ''```json'', asc ''```''] = None"
    by simp
  moreover have "replace_all [asc ''```json'', asc ''```''] (m @ asc ''```'') = m"
    using Cons.prems by (intro Cons.IH) (auto split: if_splits)
  ultimately show ?case by simp
qed

lemma replace_all_at_match:
  assumes "p \<noteq> []" "find (\<lambda>q. q \<noteq> [] \<and> startsWith (p @ s) q) alts = Some p"
  shows "replace_all alts (p @ s) = replace_all alts s"
proof -
  from assms(1) obtain c cs where pc: "p @ s = c # cs"
    by (cases p) auto
  have "replace_all alts (c # cs) = replace_all alts (drop (length p) (c # cs))"
    using assms(2) unfolding pc by simp
  then show ?thesis
    unfolding pc [symmetric] by simp
qed

subsection \<open>Texts without braces\<close>







subsection \<open>Fenced JSON\<close>

text \<open>
  C7, as amended: for every JSON text that holds no three backticks in a row, wrapped in
  triple-backtick fences with or without the \<open>json\<close> tag and with any white space
  between the fences and the text, \<open>extractJsonFromString\<close> returns the value that a
  strict parse of the unfenced text gives.
\<close>

theorem fenced_json_recovered:
  assumes parse: "JSON_parse content = Inr v"
    and nofence: "\<nexists>pre post. content = pre @ asc ''```'' @ post"
    and tag: "tag = [] \<or> tag = asc ''json''"
    and pad1: "\<forall>c \<in> set pad1. is_js_space c"
    and pad2: "\<forall>c \<in> set pad2. is_js_space c"
  shows "extractJsonFromString (JStr (asc ''```'' @ tag @ pad1 @ content @ pad2 @ asc ''```'')) = Inr v"
proof -
  define m where "m = pad1 @ content @ pad2"
  let ?alts = "[asc ''```json'', asc ''```'']"
  from parse obtain ts where tok: "tokenize content = Some ts"
    by (auto simp: JSON_parse_def split: option.splits)
  from parse have ne: "content \<noteq> []"
    by (rule JSON_parse_nonempty)
  have sp: "c \<noteq> 0x60 \<and> c \<noteq> 0x6A" if "is_js_space c" for c
    using that by (auto simp: is_js_space_def)
  have m_ne: "m \<noteq> []"
    using ne by (simp add: m_def)
  have "has_fence m = has_fence content"
    unfolding m_def using pad1 pad2 by (rule has_fence_padded)
  with nofence have m_nofence: "\<not> has_fence m"
    by (simp add: has_fence_iff)
  have m_last: "last m \<noteq> 0x60"
  proof (cases "pad2 = []")
    case True
    then have "last m = last content"
      using ne by (simp add: m_def)
    with tokenize_last [OF tok ne] show ?thesis by simp
  next
    case False
    then have "last m = last pad2" "last pad2 \<in> set pad2"
      by (simp_all add: m_def)
    with pad2 sp show ?thesis by auto
  qed
  have m_first: "hd m \<noteq> 0x6A"
  proof (cases pad1)
    case Nil
    from ne obtain c cs where c: "content = c # cs"
      by (cases content) auto
    with tokenize_first(2) [of c cs ts] tok have "c \<noteq> 0x6A"
      by simp
    with Nil c show ?thesis by (simp add: m_def)
  next
    case (Cons a pad1')
    with pad1 sp show ?thesis by (simp add: m_def)
  qed
  then have no_tag: "\<not> startsWith (m @ asc ''```'') (asc ''json'')"
    using m_ne by (cases m) (auto simp: startsWith_def asc_def)
  have head: "replace_all ?alts (asc ''```'' @ tag @ m @ asc ''```'')
      = replace_all ?alts (m @ asc ''```'')"
  proof (cases "tag = []")
    case True
    have "\<not> startsWith (asc ''```'' @ m @ asc ''```'') (asc ''```json'')"
      unfolding fence_json_eq startsWith_append using no_tag .
    moreover have "startsWith (asc ''```'' @ m @ asc ''```'') (asc ''```'')"
      by (simp add: startsWith_def)
    ultimately have "find (\<lambda>q. q \<noteq> [] \<and> startsWith (asc ''```'' @ m @ asc ''```'') q) ?alts
        = Some (asc ''```'')"
      by (simp add: fence_eq)
    then have "replace_all ?alts (asc ''```'' @ m @ asc ''```'') = replace_all ?alts (m @ asc ''```'')"
      by (intro replace_all_at_match) (simp_all add: fence_eq)
    with True show ?thesis by simp
  next
    case False
    with tag have t: "tag = asc ''json''"
      by simp
    have "startsWith (asc ''```json'' @ m @ asc ''```'') (asc ''```json'')"
      by (simp add: startsWith_def)
    then have "find (\<lambda>q. q \<noteq> [] \<and> startsWith (asc ''```json'' @ m @ asc ''```'') q) ?alts
        = Some (asc ''```json'')"
      by (simp add: asc_def)
    then have "replace_all ?alts (asc ''```json'' @ m @ asc ''```'')
        = replace_all ?alts (m @ asc ''```'')"
      by (intro replace_all_at_match) (simp_all add: asc_def)
    then show ?thesis
      by (simp add: t fence_json_eq)
  qed
  have "replace_all ?alts (m @ asc ''```'') = m"
    using m_nofence m_last by (intro replace_all_closing_fence) simp_all
  moreover have "replace_all [asc ''```''] m = m"
    using m_nofence by (intro no_fence_replace_all) (simp_all add: startsWith_def)
  ultimately have "cleaned (asc ''```'' @ tag @ m @ asc ''```'') = trim m"
    by (simp add: cleaned_def head)
  also have "\<dots> = trim content"
    unfolding m_def using pad1 pad2 by (rule trim_padded)
  finally have "JSON_parse (cleaned (asc ''```'' @ tag @ m @ asc ''```'')) = Inr v"
    using JSON_parse_trim [OF parse] by simp
  moreover have "asc ''```'' @ tag @ m @ asc ''```'' \<noteq> []"
    by (simp add: fence_eq)
  ultimately have "extractJsonFromString (JStr (asc ''```'' @ tag @ m @ asc ''```'')) = Inr v"
    by (simp add: extractJsonFromString_def)
  then show ?thesis
    by (simp add: m_def)
qed

lemma eval_parse_summary_ok:
  "JSON_parse (asc ''{\"summary\":\"ok\"}'') = Inr (JObj [(asc ''summary'', JStr (asc ''ok''))])"
  by code_simp

lemma eval_no_fence: "\<not> has_fence (asc ''{\"summary\":\"ok\"}'')"
  by code_simp

theorem fenced_json_recovered_witness:
  "extractJsonFromString (JStr (asc ''```json\<newline>{\"summary\":\"ok\"}\<newline>```''))
     = Inr (JObj [(asc ''summary'', JStr (asc ''ok''))])
   \<and> extractJsonFromString (JStr (asc ''```{\"summary\":\"ok\"}```''))
     = Inr (JObj [(asc ''summary'', JStr (asc ''ok''))])"
proof -
  have nofence: "\<nexists>pre post. asc ''{\"summary\":\"ok\"}'' = pre @ asc ''```'' @ post"
    using eval_no_fence by (simp add: has_fence_iff)
  have nl: "\<forall>c \<in> set (asc ''\<newline>''). is_js_space c"
    by (simp add: asc_def is_js_space_def)
  have none: "\<forall>c \<in> set ([] :: jsstring). is_js_space c"
    by simp
  have 1: "extractJsonFromString (JStr (asc ''```'' @ asc ''json'' @ asc ''\<newline>''
      @ asc ''{\"summary\":\"ok\"}'' @ asc ''\<newline>'' @ asc ''```''))
    = Inr (JObj [(asc ''summary'', JStr (asc ''ok''))])"
    by (rule fenced_json_recovered [OF eval_parse_summary_ok nofence _ nl nl]) simp
  have 2: "extractJsonFromString (JStr (asc ''```'' @ [] @ []
      @ asc ''{\"summary\":\"ok\"}'' @ [] @ asc ''```''))
    = Inr (JObj [(asc ''summary'', JStr (asc ''ok''))])"
    by (rule fenced_json_recovered [OF eval_parse_summary_ok nofence _ none none]) simp
  show ?thesis
    using 1 2 by (simp add: asc_def)
qed

text \<open>
  The claim fails for a JSON text with three backticks inside a string: the fence
  markers are stripped everywhere, so the fenced text parses to another value than the
  unfenced one.
\<close>

theorem fence_inside_string_lost:
  "JSON_parse (asc ''{\"a\":\"```\"}'') = Inr (JObj [(asc ''a'', JStr (asc ''```''))])
   \<and> extractJsonFromString (JStr (asc ''```json\<newline>{\"a\":\"```\"}\<newline>```''))
     = Inr (JObj [(asc ''a'', JStr [])])"
  by code_simp

subsection \<open>Nothing is thrown\<close>


lemma extract_string:
  assumes "str \<noteq> []"
  shows "extractJsonFromString (JStr str) =
    try_catch (JSON_parse (cleaned str))
      (case match_braces (cleaned str) of
         None \<Rightarrow> Inr JNull
       | Some m \<Rightarrow> try_catch (JSON_parse m) (Inr JNull))"
  using assms by (simp add: extractJsonFromString_def)








section \<open>The pipelines\<close>

subsection \<open>Replies and traces of processPdf\<close>

lemma summarize_chunk_Return:
  "summarize_chunk e trace chunk = Return r \<Longrightarrow> \<exists>body. r = Reply 500 body"
  by (auto simp: summarize_chunk_def Let_def split: sum.splits if_splits jsval.splits)

lemma summarize_loop_Return:
  "summarize_loop e cs acc trace = (Return r, trace') \<Longrightarrow> \<exists>body. r = Reply 500 body"
proof (induction cs arbitrary: acc trace)
  case Nil
  then show ?case by simp
next
  case (Cons c cs)
  then show ?case
    by (cases "summarize_chunk e trace c") (auto dest: summarize_chunk_Return)
qed

lemma summarize_loop_trace:
  "summarize_loop e cs acc trace = (r, trace') \<Longrightarrow> \<exists>more. trace' = trace @ more"
proof (induction cs arbitrary: acc trace)
  case Nil
  then show ?case by simp
next
  case (Cons c cs)
  show ?case
  proof (cases "summarize_chunk e trace c")
    case (Next s)
    with Cons.prems have
      "summarize_loop e cs (acc @ [s]) (trace @ [GenerateContent (chunk_input c)]) = (r, trace')"
      by simp
    from Cons.IH [OF this] show ?thesis by auto
  qed (use Cons.prems in auto)
qed

lemma combine_Return: "combine e trace s = Return r \<Longrightarrow> \<exists>body. r = Reply 500 body"
  by (auto simp: combine_def Let_def split: sum.splits if_splits jsval.splits)

subsection \<open>The checks on the upload\<close>

lemma toLowerCase_pdf_suffix:
  assumes "p = 0x70 \<or> p = 0x50" "d = 0x64 \<or> d = 0x44" "x = 0x66 \<or> x = 0x46"
  shows "endsWith (toLowerCase other (stem @ [0x2E, p, d, x])) (asc ''.pdf'')"
proof -
  define s where "s = stem @ [0x2E, p, d, x]"
  define n where "n = length stem"
  define g where "g = (\<lambda>i. if s ! i < 0x80 then [ascii_lower (s ! i)] else other s i)"
  have upt: "[0..<length s] = [0..<n] @ [n, Suc n, Suc (Suc n), Suc (Suc (Suc n))]"
  proof -
    have "[0..<n + 4] = [0..<n] @ [n..<n + 4]"
      by (metis upt_add_eq_append le0)
    moreover have "[n..<n + 4] = [n, Suc n, Suc (Suc n), Suc (Suc (Suc n))]"
      by (simp add: upt_rec)
    ultimately show ?thesis
      by (simp add: s_def n_def)
  qed
  have nth: "s ! n = 0x2E" "s ! Suc n = p" "s ! Suc (Suc n) = d" "s ! Suc (Suc (Suc n)) = x"
    by (simp_all add: s_def n_def nth_append)
  have low: "g n = [0x2E]" "g (Suc n) = [0x70]" "g (Suc (Suc n)) = [0x64]"
    "g (Suc (Suc (Suc n))) = [0x66]"
    unfolding g_def nth using assms by (auto simp: ascii_lower_def)
  have "toLowerCase other s = concat (map g [0..<length s])"
    by (simp add: toLowerCase_def g_def)
  also have "\<dots> = concat (map g [0..<n]) @ [0x2E, 0x70, 0x64, 0x66]"
    unfolding upt by (simp add: low)
  finally show ?thesis
    by (simp add: endsWith_def asc_def s_def)
qed

lemma processPdf_accepted:
  assumes "mimetype f = Some (asc ''application/pdf'')
      \<or> (\<exists>n. originalname f = Some n \<and> endsWith (toLowerCase (lower_non_ascii e) n) (asc ''.pdf''))"
  shows "processPdf_try e (Some f) =
    (if size_bytes f > 10 * 1024 * 1024 then
       (Inr (Reply 413 [(asc ''error'', JStr (asc ''PDF exceeds maximum size of 10MB.''))]), [])
     else summarize_document e (buffer f))"
  using assms by (auto simp: processPdf_try_def)

subsection \<open>From the text extraction on\<close>

lemma summarize_document_loop:
  assumes "pdf e buf = Inr data_text"
    and "doc = trim (case data_text of Some t \<Rightarrow> t | None \<Rightarrow> [])" and "doc \<noteq> []"
    and "summarize_loop e (chunks doc) [] [PdfParse buf] = (out, trace)"
  shows "summarize_document e buf =
    (case out of
       Return r \<Rightarrow> (Inr r, trace)
     | Throw err \<Rightarrow> (Inl err, trace)
     | Next chunkSummaries \<Rightarrow>
         if length chunkSummaries > 1 then
           (respond (combine e trace (join (asc ''\<newline>\<newline>'') chunkSummaries)),
            trace @ [GenerateContent (combine_input (join (asc ''\<newline>\<newline>'') chunkSummaries))])
         else (respond (Next (join (asc ''\<newline>\<newline>'') chunkSummaries)), trace))"
  using assms(1,3,4) unfolding assms(2) summarize_document_def
  by (simp add: Let_def split: outcome.splits)

lemma summarize_document_trace: "\<exists>rest. snd (summarize_document e buf) = PdfParse buf # rest"
proof (cases "pdf e buf")
  case (Inl err)
  then show ?thesis by (simp add: summarize_document_def)
next
  case (Inr data_text)
  define doc where "doc = trim (case data_text of Some t \<Rightarrow> t | None \<Rightarrow> [])"
  show ?thesis
  proof (cases "doc = []")
    case True
    with Inr show ?thesis
      by (simp add: summarize_document_def doc_def)
  next
    case False
    obtain out trace where sl: "summarize_loop e (chunks doc) [] [PdfParse buf] = (out, trace)"
      by (cases "summarize_loop e (chunks doc) [] [PdfParse buf]")
    from summarize_loop_trace [OF sl] obtain more where "trace = PdfParse buf # more"
      by auto
    then show ?thesis
      unfolding summarize_document_loop [OF Inr doc_def False sl]
      by (cases out) auto
  qed
qed

lemma summarize_document_status:
  assumes "fst (summarize_document e buf) = Inr (Reply status body)"
  shows "status \<noteq> 400"
proof (cases "pdf e buf")
  case (Inl err)
  with assms show ?thesis by (simp add: summarize_document_def)
next
  case (Inr data_text)
  define doc where "doc = trim (case data_text of Some t \<Rightarrow> t | None \<Rightarrow> [])"
  show ?thesis
  proof (cases "doc = []")
    case True
    with Inr assms show ?thesis
      by (simp add: summarize_document_def doc_def)
  next
    case False
    obtain out trace where sl: "summarize_loop e (chunks doc) [] [PdfParse buf] = (out, trace)"
      by (cases "summarize_loop e (chunks doc) [] [PdfParse buf]")
    note sd = summarize_document_loop [OF Inr doc_def False sl]
    show ?thesis
    proof (cases out)
      case (Return r)
      with summarize_loop_Return sl obtain b where "r = Reply 500 b"
        by blast
      with Return assms show ?thesis
        by (simp add: sd)
    next
      case (Throw err)
      with assms show ?thesis
        by (simp add: sd)
    next
      case (Next sms)
      show ?thesis
      proof (cases "combine e trace (join (asc ''\<newline>\<newline>'') sms)")
        case (Return r)
        with combine_Return obtain b where "r = Reply 500 b"
          by blast
        with Next Return assms show ?thesis
          by (auto simp: sd respond_def split: if_splits)
      qed (use Next assms in \<open>auto simp: sd respond_def split: if_splits\<close>)
    qed
  qed
qed

subsection \<open>The chunk loop\<close>

lemma member_JStr:
  assumes "member v name = JStr s"
  shows "truthy v" "typeof v = ''object''"
  using assms by (cases v; simp)+

lemma trim_Nil: "trim [] = []"
  by (simp add: trim_def)

lemma chunks_Nil: "chunks [] = []"
  by (simp add: chunks_def chunk_loop_stop)

lemma summarize_chunk_ok:
  assumes "generateContent e trace (chunk_input chunk) = Inr response"
    and "promiseTextFromResponse (JSON_stringify e) response = Inr textOut"
    and "extractJsonFromString textOut = Inr parsed"
    and "member parsed (asc ''summary'') = JStr summary"
    and "summary \<noteq> []"
  shows "summarize_chunk e trace chunk = Next (trim summary)"
  using assms member_JStr [OF assms(4)] by (simp add: summarize_chunk_def)

lemma summarize_chunk_rejected:
  assumes "generateContent e trace (chunk_input chunk) = Inr response"
    and "promiseTextFromResponse (JSON_stringify e) response = Inr textOut"
    and "extractJsonFromString textOut = Inr parsed"
    and "\<not> truthy parsed \<or> typeof parsed \<noteq> ''object''
      \<or> \<not> truthy (member parsed (asc ''summary''))"
  shows "summarize_chunk e trace chunk =
    Return (Reply 500
      [(asc ''error'', JStr (asc ''Failed to parse Gemini summary for a PDF chunk.'')),
       (asc ''geminiRawResponse'', textOut)])"
  using assms by (auto simp: summarize_chunk_def)

lemma combine_ok:
  assumes "generateContent e trace (combine_input finalSummary) = Inr combineResp"
    and "promiseTextFromResponse (JSON_stringify e) combineResp = Inr combineText"
    and "extractJsonFromString combineText = Inr combineParsed"
    and "member combineParsed (asc ''summary'') = JStr summary"
    and "summary \<noteq> []"
  shows "combine e trace finalSummary = Next (trim summary)"
  using assms member_JStr [OF assms(4)] by (simp add: combine_def)

lemma summarize_loop_aborts:
  assumes "\<forall>k < length pre. \<exists>s.
      summarize_chunk e (trace @ map (\<lambda>c. GenerateContent (chunk_input c)) (take k pre)) (pre ! k)
        = Next s"
    and "summarize_chunk e (trace @ map (\<lambda>c. GenerateContent (chunk_input c)) pre) c = Return r"
  shows "summarize_loop e (pre @ c # post) acc trace
    = (Return r, trace @ map (\<lambda>c. GenerateContent (chunk_input c)) (pre @ [c]))"
  using assms
proof (induction pre arbitrary: acc trace)
  case Nil
  then show ?case by simp
next
  case (Cons p pre)
  from Cons.prems(1) [rule_format, of 0] obtain s where
    s: "summarize_chunk e trace p = Next s"
    by auto
  let ?trace = "trace @ [GenerateContent (chunk_input p)]"
  have a: "\<forall>k < length pre. \<exists>s.
      summarize_chunk e (?trace @ map (\<lambda>c. GenerateContent (chunk_input c)) (take k pre)) (pre ! k)
        = Next s"
  proof (intro allI impI)
    fix k assume "k < length pre"
    then have "Suc k < length (p # pre)"
      by simp
    from Cons.prems(1) [rule_format, OF this] show "\<exists>s.
      summarize_chunk e (?trace @ map (\<lambda>c. GenerateContent (chunk_input c)) (take k pre)) (pre ! k)
        = Next s"
      by simp
  qed
  have b: "summarize_chunk e (?trace @ map (\<lambda>c. GenerateContent (chunk_input c)) pre) c = Return r"
    using Cons.prems(2) by simp
  from Cons.IH [OF a b, of "acc @ [s]"] s show ?case
    by simp
qed

subsection \<open>The keys of an image answer\<close>

lemma trimmed_or_null_truthy:
  "truthy (trimmed_or_null x) \<longleftrightarrow> (\<exists>str. x = JStr str \<and> trim str \<noteq> [])"
  by (cases x) (auto simp: trimmed_or_null_def trim_Nil)

lemma trimmed_or_null_JStr: "trimmed_or_null (JStr str) = (if str = [] then JNull else JStr (trim str))"
  by (simp add: trimmed_or_null_def)

subsection \<open>Running the scenarios\<close>

text \<open>
  The pipeline on the scripted collaborators. The chunk plan of a concrete text comes from
  the lemmas on \<open>chunk_loop\<close>, and \<open>extractJsonFromString\<close> on a concrete answer is
  evaluated by the simplifier.
\<close>

lemma chunks_short:
  assumes "doc \<noteq> []" "length doc \<le> CHUNK_SIZE"
  shows "chunks doc = [doc]"
proof -
  have "chunk_loop doc 0 [] = take CHUNK_SIZE (drop 0 doc) # chunk_loop doc (0 + CHUNK_SIZE) []"
    using assms(1) by (intro chunk_loop_step) simp
  with assms(2) show ?thesis
    by (simp add: chunks_def chunk_loop_stop)
qed

lemma scripted_generateContent:
  "generateContent (scripted_env extracted answers) trace input =
     Inr (Callable (Inr (JStr (case drop (length (filter is_model_call trace)) answers of
                                 a # _ \<Rightarrow> a | [] \<Rightarrow> []))))"
  by (simp add: scripted_env_def)

lemma scripted_pdf: "pdf (scripted_env extracted answers) buf = Inr (Some extracted)"
  by (simp add: scripted_env_def)

lemma eval_blank_summary: "extractJsonFromString (JStr (asc ''{\"summary\":\"   \"}''))
  = Inr (JObj [(asc ''summary'', JStr (asc ''   ''))])"
  by code_simp

lemma eval_trim_hello: "trim (asc ''hello'') = asc ''hello''" "trim (asc ''   '') = []"
  by code_simp+

lemma trim_id:
  assumes "s \<noteq> []" "\<not> is_js_space (hd s)" "\<not> is_js_space (last s)"
  shows "trim s = s"
proof -
  from assms(1,2) have "dropWhile is_js_space s = s"
    by (cases s) simp_all
  moreover from assms(1,3) have "dropWhile is_js_space (rev s) = rev s"
    by (cases "rev s") (simp_all add: last_rev [symmetric] hd_rev)
  ultimately show ?thesis
    by (simp add: trim_def)
qed

lemma trim_long_text: "trim long_text = long_text"
  by (rule trim_id) (simp_all add: long_text_def is_js_space_def)

lemma chunks_long_text:
  "chunks long_text = [replicate 24000 0x61, replicate 24000 0x61, [0x61]]"
proof -
  have 1: "chunk_loop long_text 0 [] = take CHUNK_SIZE (drop 0 long_text)
      # chunk_loop long_text (0 + CHUNK_SIZE) []"
    by (rule chunk_loop_step) (simp add: long_text_def)
  have 2: "chunk_loop long_text 24000 [] = take CHUNK_SIZE (drop 24000 long_text)
      # chunk_loop long_text (24000 + CHUNK_SIZE) []"
    by (rule chunk_loop_step) (simp add: long_text_def)
  have 3: "chunk_loop long_text 48000 [] = take CHUNK_SIZE (drop 48000 long_text)
      # chunk_loop long_text (48000 + CHUNK_SIZE) []"
    by (rule chunk_loop_step) (simp add: long_text_def)
  have 4: "chunk_loop long_text 72000 [] = []"
    by (rule chunk_loop_stop) (simp add: long_text_def)
  show ?thesis
    unfolding chunks_def 1
    by (simp add: CHUNK_SIZE_def 2 [unfolded CHUNK_SIZE_def] 3 [unfolded CHUNK_SIZE_def] 4)
       (simp add: long_text_def)
qed

lemma eval_summary_ok: "extractJsonFromString (JStr (asc ''{\"summary\":\"ok\"}''))
  = Inr (JObj [(asc ''summary'', JStr (asc ''ok''))])"
  by code_simp

lemma eval_refusal: "extractJsonFromString (JStr (asc ''I cannot summarize this.'')) = Inr JNull"
  by code_simp

lemma eval_trim_ok: "trim (asc ''ok'') = asc ''ok''"
  by code_simp

text \<open>A \<open>summary\<close> that is the number zero in binary64: it is falsy.\<close>

lemma eval_tiny_summary:
  "extractJsonFromString (JStr (asc ''{\"summary\": 1e-324}''))
   = Inr (JObj [(asc ''summary'', JNum 0)])"
proof -
  have "tokenize (asc ''{\"summary\": 1e-324}'')
      = Some [LBrace, TString (asc ''summary''), Colon, TNumber 0, RBrace]"
    by (simp add: asc_def is_json_ws_def next_token_def scan_number_def scan_frac_def scan_exp_def
          is_digit_def digits_value_def number_value_def Let_def startsWith_def)
  moreover have "cleaned (asc ''{\"summary\": 1e-324}'') = asc ''{\"summary\": 1e-324}''"
    by code_simp
  ultimately show ?thesis
    by (simp add: extract_string asc_eq_Nil JSON_parse_def set_property_def)
qed

lemma summarize_chunk_scripted:
  "summarize_chunk (scripted_env extracted answers) trace chunk =
    (let textOut = JStr (case drop (length (filter is_model_call trace)) answers of
                           a # _ \<Rightarrow> a | [] \<Rightarrow> []) in
     case extractJsonFromString textOut of
       Inl err \<Rightarrow> Throw err
     | Inr parsed \<Rightarrow>
         if \<not> truthy parsed \<or> typeof parsed \<noteq> ''object''
            \<or> \<not> truthy (member parsed (asc ''summary''))
         then
           Return (Reply 500
             [(asc ''error'', JStr (asc ''Failed to parse Gemini summary for a PDF chunk.'')),
              (asc ''geminiRawResponse'', textOut)])
         else
           (case member parsed (asc ''summary'') of
              JStr summary \<Rightarrow> Next (trim summary)
            | _ \<Rightarrow> Throw (NotAFunction ''parsed.summary.trim'')))"
  by (simp add: summarize_chunk_def scripted_generateContent Let_def)

lemma combine_scripted:
  "combine (scripted_env extracted answers) trace finalSummary =
    (let combineText = JStr (case drop (length (filter is_model_call trace)) answers of
                           a # _ \<Rightarrow> a | [] \<Rightarrow> []) in
     case extractJsonFromString combineText of
       Inl err \<Rightarrow> Throw err
     | Inr combineParsed \<Rightarrow>
         if \<not> truthy combineParsed \<or> typeof combineParsed \<noteq> ''object''
            \<or> \<not> truthy (member combineParsed (asc ''summary''))
         then
           Return (Reply 500
             [(asc ''error'', JStr (asc ''Failed to parse combined summary from Gemini.'')),
              (asc ''geminiRawResponse'', combineText)])
         else
           (case member combineParsed (asc ''summary'') of
              JStr summary \<Rightarrow> Next (trim summary)
            | _ \<Rightarrow> Throw (NotAFunction ''combineParsed.summary.trim'')))"
  by (simp add: combine_def scripted_generateContent Let_def)

lemma eval_first_chunk_fails: "processPdf (scripted_env long_text [asc ''I cannot summarize this.'']) (Some pdf_upload)
  = (Reply 500
       [(asc ''error'', JStr (asc ''Failed to parse Gemini summary for a PDF chunk.'')),
        (asc ''geminiRawResponse'', JStr (asc ''I cannot summarize this.''))],
     [PdfParse [], GenerateContent (chunk_input (replicate 24000 0x61))])"
  by (simp add: processPdf_def processPdf_try_def pdf_upload_def summarize_document_def
        scripted_pdf trim_long_text chunks_long_text summarize_chunk_scripted eval_refusal
        asc_eq_iff asc_eq_Nil)
     (simp add: long_text_def)

lemma eval_second_chunk_fails: "processPdf (scripted_env long_text
      [asc ''{\"summary\":\"ok\"}'', asc ''I cannot summarize this.'']) (Some pdf_upload)
  = (Reply 500
       [(asc ''error'', JStr (asc ''Failed to parse Gemini summary for a PDF chunk.'')),
        (asc ''geminiRawResponse'', JStr (asc ''I cannot summarize this.''))],
     [PdfParse [], GenerateContent (chunk_input (replicate 24000 0x61)),
      GenerateContent (chunk_input (replicate 24000 0x61))])"
  by (simp add: processPdf_def processPdf_try_def pdf_upload_def summarize_document_def
        scripted_pdf trim_long_text chunks_long_text summarize_chunk_scripted eval_summary_ok eval_refusal eval_trim_ok
        asc_eq_iff asc_eq_Nil)
     (simp add: long_text_def)

lemma cap_short: "length s \<le> 4000 \<Longrightarrow> cap s = s"
  by (simp add: cap_def)

lemma chunks_hello: "chunks (asc ''hello'') = [asc ''hello'']"
  by (rule chunks_short) (simp_all add: asc_def CHUNK_SIZE_def)

lemma eval_ok_run:
  "processPdf (scripted_env (asc ''hello'') [asc ''{\"summary\":\"ok\"}'']) (Some pdf_upload)
   = (Reply 200 [(asc ''summary'', JStr (asc ''ok''))],
      [PdfParse [], GenerateContent (chunk_input (asc ''hello''))])"
proof -
  have "summarize_chunk (scripted_env (asc ''hello'') [asc ''{\"summary\":\"ok\"}''])
      [PdfParse []] (asc ''hello'') = Next (asc ''ok'')"
    by (simp add: summarize_chunk_scripted eval_summary_ok eval_trim_ok asc_eq_iff asc_eq_Nil)
  moreover have "cap (asc ''ok'') = asc ''ok''"
    by (rule cap_short) (simp add: asc_def)
  ultimately show ?thesis
    by (simp add: processPdf_def processPdf_try_def pdf_upload_def summarize_document_def
          scripted_pdf eval_trim_hello chunks_hello respond_def asc_eq_iff asc_eq_Nil)
qed

subsection \<open>The cap\<close>

text \<open>A long answer: the summary of \<open>long_answer\<close> is read in one piece.\<close>

lemma scan_string_plain:
  "scan_string (replicate n 0x61 @ 0x22 # rest) = Some (replicate n 0x61, rest)"
  by (induction n) simp_all

lemma no_backtick_no_fence: "0x60 \<notin> set s \<Longrightarrow> \<not> has_fence s"
  by (induction s) (auto simp: startsWith_def asc_def)

lemma eval_long_answer:
  "extractJsonFromString (JStr long_answer)
   = Inr (JObj [(asc ''summary'', JStr (replicate 5000 0x61))])"
proof -
  have tok: "tokenize long_answer
      = Some [LBrace, TString (asc ''summary''), Colon, TString (replicate 5000 0x61), RBrace]"
    by (simp add: long_answer_def asc_def is_json_ws_def next_token_def scan_string_plain)
  have parse: "JSON_parse long_answer = Inr (JObj [(asc ''summary'', JStr (replicate 5000 0x61))])"
    by (simp add: JSON_parse_def tok set_property_def)
  have nofence: "\<not> has_fence long_answer"
    by (rule no_backtick_no_fence) (simp add: long_answer_def asc_def)
  have "replace_all [asc ''```json'', asc ''```''] long_answer = long_answer"
    using nofence by (rule no_fence_replace_all) (simp add: startsWith_def asc_def)
  moreover have "replace_all [asc ''```''] long_answer = long_answer"
    using nofence by (rule no_fence_replace_all) (simp add: startsWith_def)
  moreover have "trim long_answer = long_answer"
    by (rule trim_id) (simp_all add: long_answer_def asc_def is_js_space_def)
  ultimately have "cleaned long_answer = long_answer"
    by (simp add: cleaned_def)
  moreover have "long_answer \<noteq> []"
    by (simp add: long_answer_def asc_def)
  ultimately show ?thesis
    by (simp add: extract_string parse)
qed

lemma eval_trim_long_summary: "trim (replicate 5000 0x61) = replicate 5000 0x61"
  by (rule trim_id) (simp_all add: is_js_space_def)

lemma eval_long_run:
  "summarize_loop (scripted_env (asc ''hello'') [long_answer]) (chunks (asc ''hello'')) []
     [PdfParse []]
   = (Next [replicate 5000 0x61], [PdfParse [], GenerateContent (chunk_input (asc ''hello''))])"
  by (simp add: chunks_hello summarize_chunk_scripted eval_long_answer eval_trim_long_summary
        asc_eq_iff asc_eq_Nil)

lemma eval_long_combine_run:
  "summarize_loop (scripted_env long_text
       [asc ''{\"summary\":\"ok\"}'', asc ''{\"summary\":\"ok\"}'', asc ''{\"summary\":\"ok\"}'',
        long_answer]) (chunks long_text) [] [PdfParse []]
   = (Next [asc ''ok'', asc ''ok'', asc ''ok''],
      [PdfParse [], GenerateContent (chunk_input (replicate 24000 0x61)),
       GenerateContent (chunk_input (replicate 24000 0x61)), GenerateContent (chunk_input [0x61])])"
  "combine (scripted_env long_text
       [asc ''{\"summary\":\"ok\"}'', asc ''{\"summary\":\"ok\"}'', asc ''{\"summary\":\"ok\"}'',
        long_answer])
     [PdfParse [], GenerateContent (chunk_input (replicate 24000 0x61)),
      GenerateContent (chunk_input (replicate 24000 0x61)), GenerateContent (chunk_input [0x61])]
     finalSummary
   = Next (replicate 5000 0x61)"
  by (simp_all add: chunks_long_text summarize_chunk_scripted combine_scripted eval_summary_ok
        eval_trim_ok eval_long_answer eval_trim_long_summary asc_eq_iff asc_eq_Nil)

text \<open>
  C2: the reply of a request that reaches a final summary holds exactly that summary
  after the cap. When the loop over the chunks has collected the chunk summaries, the
  final summary of a single chunk is the joined list, that is the chunk's summary; for
  several chunks it is what the combine step gives, and for a combine answer that holds a
  string \<open>summary\<close> that is not blank this is the trimmed \<open>summary\<close>. The cap turns a
  final summary of more than 4000 code units into its first 3997 code units followed by
  three full stops, 4000 code units in all, and leaves one of at most 4000 code units
  unchanged.
\<close>

theorem cap_limit:
  assumes ok: "mimetype f = Some (asc ''application/pdf'')
      \<or> (\<exists>n. originalname f = Some n \<and> endsWith (toLowerCase (lower_non_ascii e) n) (asc ''.pdf''))"
    and small: "size_bytes f \<le> 10 * 1024 * 1024"
    and extracted: "pdf e (buffer f) = Inr data_text"
    and doc: "doc = trim (case data_text of Some t \<Rightarrow> t | None \<Rightarrow> [])" "doc \<noteq> []"
    and loop: "summarize_loop e (chunks doc) [] [PdfParse (buffer f)] = (Next chunkSummaries, trace)"
    and joined: "joined = join (asc ''\<newline>\<newline>'') chunkSummaries"
  shows "(length chunkSummaries \<le> 1 \<longrightarrow>
            processPdf e (Some f) = (Reply 200 [(asc ''summary'', JStr (cap joined))], trace))
    \<and> (1 < length chunkSummaries \<and> combine e trace joined = Next combined \<longrightarrow>
            processPdf e (Some f)
              = (Reply 200 [(asc ''summary'', JStr (cap combined))],
                 trace @ [GenerateContent (combine_input joined)]))
    \<and> (1 < length chunkSummaries
          \<and> generateContent e trace (combine_input joined) = Inr combineResp
          \<and> promiseTextFromResponse (JSON_stringify e) combineResp = Inr combineText
          \<and> extractJsonFromString combineText = Inr combineParsed
          \<and> member combineParsed (asc ''summary'') = JStr summary \<and> trim summary \<noteq> [] \<longrightarrow>
            processPdf e (Some f)
              = (Reply 200 [(asc ''summary'', JStr (cap (trim summary)))],
                 trace @ [GenerateContent (combine_input joined)]))
    \<and> (4000 < length s \<longrightarrow> cap s = take 3997 s @ asc ''...'' \<and> length (cap s) = 4000)
    \<and> (length s \<le> 4000 \<longrightarrow> cap s = s)"
proof -
  note sd = summarize_document_loop [OF extracted doc loop]
  have run: "processPdf e (Some f)
      = (case summarize_document e (buffer f) of
           (Inr r, trace) \<Rightarrow> (r, trace)
         | (Inl err, trace) \<Rightarrow>
             (Reply 500 [(asc ''error'', JStr (asc ''Failed to process PDF.'')),
                         (asc ''details'', JStr (details err))], trace))"
    using small by (simp add: processPdf_def processPdf_accepted [OF ok])
  have 1: "processPdf e (Some f) = (Reply 200 [(asc ''summary'', JStr (cap joined))], trace)"
    if "length chunkSummaries \<le> 1"
    using that unfolding run sd joined by (simp add: respond_def)
  have 2: "processPdf e (Some f)
      = (Reply 200 [(asc ''summary'', JStr (cap combined))],
         trace @ [GenerateContent (combine_input joined)])"
    if "1 < length chunkSummaries" "combine e trace joined = Next combined"
    using that unfolding run sd joined by (simp add: respond_def)
  have 5: "processPdf e (Some f)
      = (Reply 200 [(asc ''summary'', JStr (cap (trim summary)))],
         trace @ [GenerateContent (combine_input joined)])"
    if "1 < length chunkSummaries"
      "generateContent e trace (combine_input joined) = Inr combineResp"
      "promiseTextFromResponse (JSON_stringify e) combineResp = Inr combineText"
      "extractJsonFromString combineText = Inr combineParsed"
      "member combineParsed (asc ''summary'') = JStr summary" "trim summary \<noteq> []"
  proof -
    from that(6) have "summary \<noteq> []"
      using trim_Nil by auto
    with that(2-5) have "combine e trace joined = Next (trim summary)"
      by (rule combine_ok)
    with that(1) show ?thesis
      unfolding run sd joined by (simp add: respond_def)
  qed
  have 3: "cap s = take 3997 s @ asc ''...'' \<and> length (cap s) = 4000" if "4000 < length s"
    using that by (simp add: cap_def slice_js_def asc_def)
  have 4: "cap s = s" if "length s \<le> 4000"
    using that by (simp add: cap_def)
  show ?thesis
    using 1 2 3 4 5 by blast
qed

theorem cap_limit_witness:
  "processPdf (scripted_env (asc ''hello'') [long_answer]) (Some pdf_upload)
   = (Reply 200 [(asc ''summary'', JStr (replicate 3997 0x61 @ asc ''...''))],
      [PdfParse [], GenerateContent (chunk_input (asc ''hello''))])
   \<and> processPdf (scripted_env long_text
        [asc ''{\"summary\":\"ok\"}'', asc ''{\"summary\":\"ok\"}'', asc ''{\"summary\":\"ok\"}'',
         long_answer]) (Some pdf_upload)
   = (Reply 200 [(asc ''summary'', JStr (replicate 3997 0x61 @ asc ''...''))],
      [PdfParse [], GenerateContent (chunk_input (replicate 24000 0x61)),
       GenerateContent (chunk_input (replicate 24000 0x61)), GenerateContent (chunk_input [0x61]),
       GenerateContent (combine_input (asc ''ok\<newline>\<newline>ok\<newline>\<newline>ok''))])
   \<and> length (replicate 3997 (0x61 :: cu) @ asc ''...'') = 4000
   \<and> cap (asc ''ok'') = asc ''ok''"
proof -
  let ?ok = "asc ''{\"summary\":\"ok\"}''"
  let ?one = "scripted_env (asc ''hello'') [long_answer]"
  let ?many = "scripted_env long_text [?ok, ?ok, ?ok, long_answer]"
  let ?long = "replicate 5000 (0x61 :: cu)"
  have ok: "mimetype pdf_upload = Some (asc ''application/pdf'')
      \<or> (\<exists>n. originalname pdf_upload = Some n
            \<and> endsWith (toLowerCase (lower_non_ascii env) n) (asc ''.pdf''))" for env
    by (simp add: pdf_upload_def)
  have small: "size_bytes pdf_upload \<le> 10 * 1024 * 1024"
    by (simp add: pdf_upload_def)
  have buf: "buffer pdf_upload = []"
    by (simp add: pdf_upload_def)
  have extracted: "pdf (scripted_env extracted answers) (buffer pdf_upload) = Inr (Some extracted)"
    for extracted answers
    by (simp add: scripted_pdf)
  have hello: "asc ''hello'' = trim (case Some (asc ''hello'') of Some t \<Rightarrow> t | None \<Rightarrow> [])"
    "asc ''hello'' \<noteq> []"
    by (simp_all add: eval_trim_hello asc_eq_Nil)
  have long: "long_text = trim (case Some long_text of Some t \<Rightarrow> t | None \<Rightarrow> [])"
    "long_text \<noteq> []"
    by (simp_all add: trim_long_text) (simp add: long_text_def)
  have joined: "asc ''ok\<newline>\<newline>ok\<newline>\<newline>ok''
      = join (asc ''\<newline>\<newline>'') [asc ''ok'', asc ''ok'', asc ''ok'']"
    by (simp add: asc_def)
  have one: "join (asc ''\<newline>\<newline>'') [?long] = ?long"
    by simp
  have capped: "cap ?long = replicate 3997 0x61 @ asc ''...'' \<and> length (cap ?long) = 4000"
    using cap_limit [OF ok small extracted hello eval_long_run [unfolded buf [symmetric]] one [symmetric],
        where s = ?long]
    by (simp add: asc_def)
  have short: "cap (asc ''ok'') = asc ''ok''"
    using cap_limit [OF ok small extracted hello eval_long_run [unfolded buf [symmetric]] one [symmetric],
        where s = "asc ''ok''"]
    by (simp add: asc_def)
  have 1: "processPdf ?one (Some pdf_upload)
    = (Reply 200 [(asc ''summary'', JStr (cap ?long))],
       [PdfParse [], GenerateContent (chunk_input (asc ''hello''))])"
    using cap_limit [OF ok small extracted hello eval_long_run [unfolded buf [symmetric]] one [symmetric]]
    by (simp add: buf)
  let ?trace = "[PdfParse (buffer pdf_upload), GenerateContent (chunk_input (replicate 24000 0x61)),
        GenerateContent (chunk_input (replicate 24000 0x61)), GenerateContent (chunk_input [0x61])]"
  have call: "generateContent ?many ?trace
      (combine_input (asc ''ok\<newline>\<newline>ok\<newline>\<newline>ok''))
    = Inr (Callable (Inr (JStr long_answer)))"
    by (simp add: scripted_generateContent)
  have raw: "promiseTextFromResponse (JSON_stringify ?many) (Callable (Inr (JStr long_answer)))
      = Inr (JStr long_answer)"
    by simp
  have valid: "member (JObj [(asc ''summary'', JStr ?long)]) (asc ''summary'') = JStr ?long"
    "trim ?long \<noteq> []"
    by (simp_all add: eval_trim_long_summary)
  have 2: "processPdf ?many (Some pdf_upload)
    = (Reply 200 [(asc ''summary'', JStr (cap ?long))],
       [PdfParse [], GenerateContent (chunk_input (replicate 24000 0x61)),
        GenerateContent (chunk_input (replicate 24000 0x61)), GenerateContent (chunk_input [0x61]),
        GenerateContent (combine_input (asc ''ok\<newline>\<newline>ok\<newline>\<newline>ok''))])"
    using cap_limit [OF ok small extracted long eval_long_combine_run(1) [unfolded buf [symmetric]] joined,
        where combined = ?long and combineResp = "Callable (Inr (JStr long_answer))"
          and combineText = "JStr long_answer"
          and combineParsed = "JObj [(asc ''summary'', JStr ?long)]" and summary = ?long]
      eval_long_combine_run(2) call raw eval_long_answer valid
    by (simp add: buf eval_trim_long_summary)
  have dots: "length (asc ''...'') = 3"
    by (simp add: asc_def)
  show ?thesis
    using 1 2 capped short by (simp add: dots)
qed

subsection \<open>A single chunk\<close>

text \<open>
  C3: when the extracted text gives exactly one chunk and the model's answer for it
  holds a string \<open>summary\<close> that is not blank, \<open>processPdf\<close> replies with that summary,
  trimmed and capped, and the only model call of the request is the one for the chunk:
  no combine call is made.
\<close>

theorem single_chunk_skips_combine:
  assumes ok: "mimetype f = Some (asc ''application/pdf'')
      \<or> (\<exists>n. originalname f = Some n \<and> endsWith (toLowerCase (lower_non_ascii e) n) (asc ''.pdf''))"
    and small: "size_bytes f \<le> 10 * 1024 * 1024"
    and extracted: "pdf e (buffer f) = Inr data_text"
    and doc: "doc = trim (case data_text of Some t \<Rightarrow> t | None \<Rightarrow> [])"
    and one: "chunks doc = [chunk]"
    and call: "generateContent e [PdfParse (buffer f)] (chunk_input chunk) = Inr response"
    and raw: "promiseTextFromResponse (JSON_stringify e) response = Inr textOut"
    and parsed: "extractJsonFromString textOut = Inr parsed"
    and valid: "member parsed (asc ''summary'') = JStr summary" "trim summary \<noteq> []"
  shows "processPdf e (Some f) =
    (Reply 200 [(asc ''summary'', JStr (cap (trim summary)))],
     [PdfParse (buffer f), GenerateContent (chunk_input chunk)])"
proof -
  from one have ne: "doc \<noteq> []"
    using chunks_Nil by auto
  from valid(2) have "summary \<noteq> []"
    using trim_Nil by auto
  with call raw parsed valid(1) have
    "summarize_chunk e [PdfParse (buffer f)] chunk = Next (trim summary)"
    by (rule summarize_chunk_ok)
  then have "summarize_loop e (chunks doc) [] [PdfParse (buffer f)]
      = (Next [trim summary], [PdfParse (buffer f), GenerateContent (chunk_input chunk)])"
    by (simp add: one)
  from summarize_document_loop [OF extracted doc ne this] small show ?thesis
    by (simp add: processPdf_def processPdf_accepted [OF ok] respond_def)
qed

theorem single_chunk_skips_combine_witness:
  "processPdf (scripted_env (asc ''hello'') [asc ''{\"summary\":\"ok\"}'']) (Some pdf_upload)
   = (Reply 200 [(asc ''summary'', JStr (asc ''ok''))],
      [PdfParse [], GenerateContent (chunk_input (asc ''hello''))])"
proof -
  let ?good = "asc ''{\"summary\":\"ok\"}''"
  let ?e = "scripted_env (asc ''hello'') [?good]"
  have ok: "mimetype pdf_upload = Some (asc ''application/pdf'')
      \<or> (\<exists>n. originalname pdf_upload = Some n
            \<and> endsWith (toLowerCase (lower_non_ascii ?e) n) (asc ''.pdf''))"
    by (simp add: pdf_upload_def)
  have small: "size_bytes pdf_upload \<le> 10 * 1024 * 1024"
    by (simp add: pdf_upload_def)
  have extracted: "pdf ?e (buffer pdf_upload) = Inr (Some (asc ''hello''))"
    by (simp add: scripted_pdf)
  have doc: "asc ''hello'' = trim (case Some (asc ''hello'') of Some t \<Rightarrow> t | None \<Rightarrow> [])"
    by (simp add: eval_trim_hello)
  have call: "generateContent ?e [PdfParse (buffer pdf_upload)] (chunk_input (asc ''hello''))
      = Inr (Callable (Inr (JStr ?good)))"
    by (simp add: scripted_generateContent)
  have raw: "promiseTextFromResponse (JSON_stringify ?e) (Callable (Inr (JStr ?good))) = Inr (JStr ?good)"
    by simp
  have valid: "member (JObj [(asc ''summary'', JStr (asc ''ok''))]) (asc ''summary'') = JStr (asc ''ok'')"
    by simp
  have ne: "trim (asc ''ok'') \<noteq> []"
    by (simp add: eval_trim_ok asc_eq_Nil)
  have "cap (asc ''ok'') = asc ''ok''"
    by (rule cap_short) (simp add: asc_def)
  then show ?thesis
    using single_chunk_skips_combine
      [OF ok small extracted doc chunks_hello call raw eval_summary_ok valid ne]
    by (simp add: eval_trim_ok pdf_upload_def)
qed

subsection \<open>A failing chunk\<close>

text \<open>
  C4, as amended: when the answers for the chunks before chunk \<open>n\<close> hold a string
  \<open>summary\<close> that is not blank and the answer for chunk \<open>n\<close> fails the check of line 203
  (no text, no JSON, not an object, or a missing or falsy \<open>summary\<close>), \<open>processPdf\<close> replies
  at once with status 500, the fixed message "Failed to parse Gemini summary for a PDF
  chunk." and the raw model text of that chunk. The model calls of the request are those
  for the chunks up to \<open>n\<close>: no later chunk is sent and no combine call is made. The
  reply does not say which chunk failed.
\<close>

theorem chunk_failure_aborts:
  assumes ok: "mimetype f = Some (asc ''application/pdf'')
      \<or> (\<exists>n. originalname f = Some n \<and> endsWith (toLowerCase (lower_non_ascii e) n) (asc ''.pdf''))"
    and small: "size_bytes f \<le> 10 * 1024 * 1024"
    and extracted: "pdf e (buffer f) = Inr data_text"
    and doc: "doc = trim (case data_text of Some t \<Rightarrow> t | None \<Rightarrow> [])"
    and n: "n < length (chunks doc)"
    and earlier: "\<forall>k < n. \<exists>response textOut parsed summary.
        generateContent e
          (PdfParse (buffer f) # map (\<lambda>c. GenerateContent (chunk_input c)) (take k (chunks doc)))
          (chunk_input (chunks doc ! k)) = Inr response
        \<and> promiseTextFromResponse (JSON_stringify e) response = Inr textOut
        \<and> extractJsonFromString textOut = Inr parsed
        \<and> member parsed (asc ''summary'') = JStr summary
        \<and> trim summary \<noteq> []"
    and call: "generateContent e
          (PdfParse (buffer f) # map (\<lambda>c. GenerateContent (chunk_input c)) (take n (chunks doc)))
          (chunk_input (chunks doc ! n)) = Inr response"
    and raw: "promiseTextFromResponse (JSON_stringify e) response = Inr textOut"
    and parsed: "extractJsonFromString textOut = Inr parsed"
    and invalid: "\<not> truthy parsed \<or> typeof parsed \<noteq> ''object''
      \<or> \<not> truthy (member parsed (asc ''summary''))"
  shows "processPdf e (Some f) =
    (Reply 500
       [(asc ''error'', JStr (asc ''Failed to parse Gemini summary for a PDF chunk.'')),
        (asc ''geminiRawResponse'', textOut)],
     PdfParse (buffer f) # map (\<lambda>c. GenerateContent (chunk_input c)) (take (Suc n) (chunks doc)))"
proof -
  let ?r = "Reply 500
       [(asc ''error'', JStr (asc ''Failed to parse Gemini summary for a PDF chunk.'')),
        (asc ''geminiRawResponse'', textOut)]"
  define pre where "pre = take n (chunks doc)"
  define post where "post = drop (Suc n) (chunks doc)"
  have split: "chunks doc = pre @ (chunks doc ! n) # post"
    using n by (simp add: pre_def post_def id_take_nth_drop)
  have len: "length pre = n"
    using n by (simp add: pre_def)
  from n have ne: "doc \<noteq> []"
    using chunks_Nil by auto
  have a: "\<forall>k < length pre. \<exists>s.
      summarize_chunk e ([PdfParse (buffer f)] @ map (\<lambda>c. GenerateContent (chunk_input c)) (take k pre))
        (pre ! k) = Next s"
  proof (intro allI impI)
    fix k assume k: "k < length pre"
    then have kn: "k < n"
      by (simp add: len)
    then have tk: "take k pre = take k (chunks doc)" "pre ! k = chunks doc ! k"
      by (simp_all add: pre_def min_def)
    from earlier [rule_format, OF kn] obtain response textOut parsed summary where
      answer: "generateContent e
          ([PdfParse (buffer f)] @ map (\<lambda>c. GenerateContent (chunk_input c)) (take k pre))
          (chunk_input (pre ! k)) = Inr response"
      "promiseTextFromResponse (JSON_stringify e) response = Inr textOut"
      "extractJsonFromString textOut = Inr parsed"
      "member parsed (asc ''summary'') = JStr summary"
      and "trim summary \<noteq> []"
      unfolding tk by auto
    from this(5) have "summary \<noteq> []"
      using trim_Nil by auto
    with answer have "summarize_chunk e
        ([PdfParse (buffer f)] @ map (\<lambda>c. GenerateContent (chunk_input c)) (take k pre)) (pre ! k)
      = Next (trim summary)"
      by (rule summarize_chunk_ok)
    then show "\<exists>s. summarize_chunk e
        ([PdfParse (buffer f)] @ map (\<lambda>c. GenerateContent (chunk_input c)) (take k pre)) (pre ! k)
      = Next s"
      by blast
  qed
  have b: "summarize_chunk e ([PdfParse (buffer f)] @ map (\<lambda>c. GenerateContent (chunk_input c)) pre)
      (chunks doc ! n) = Return ?r"
    using call raw parsed invalid unfolding pre_def by (intro summarize_chunk_rejected) simp_all
  have "summarize_loop e (chunks doc) [] [PdfParse (buffer f)]
    = (Return ?r, [PdfParse (buffer f)]
         @ map (\<lambda>c. GenerateContent (chunk_input c)) (pre @ [chunks doc ! n]))"
    using summarize_loop_aborts [OF a b, of post "[]"] split by simp
  moreover have "pre @ [chunks doc ! n] = take (Suc n) (chunks doc)"
    using n by (simp add: pre_def take_Suc_conv_app_nth)
  ultimately have "summarize_loop e (chunks doc) [] [PdfParse (buffer f)]
    = (Return ?r, PdfParse (buffer f)
         # map (\<lambda>c. GenerateContent (chunk_input c)) (take (Suc n) (chunks doc)))"
    by simp
  from summarize_document_loop [OF extracted doc ne this] small show ?thesis
    by (simp add: processPdf_def processPdf_accepted [OF ok])
qed

theorem chunk_failure_aborts_witness:
  "processPdf (scripted_env long_text
      [asc ''{\"summary\":\"ok\"}'', asc ''I cannot summarize this.'']) (Some pdf_upload)
   = (Reply 500
        [(asc ''error'', JStr (asc ''Failed to parse Gemini summary for a PDF chunk.'')),
         (asc ''geminiRawResponse'', JStr (asc ''I cannot summarize this.''))],
      [PdfParse [], GenerateContent (chunk_input (replicate 24000 0x61)),
       GenerateContent (chunk_input (replicate 24000 0x61))])
   \<and> processPdf (scripted_env (asc ''hello'') [asc ''{\"summary\": 1e-324}'']) (Some pdf_upload)
   = (Reply 500
        [(asc ''error'', JStr (asc ''Failed to parse Gemini summary for a PDF chunk.'')),
         (asc ''geminiRawResponse'', JStr (asc ''{\"summary\": 1e-324}''))],
      [PdfParse [], GenerateContent (chunk_input (asc ''hello''))])"
proof -
  let ?good = "asc ''{\"summary\":\"ok\"}''"
  let ?bad = "asc ''I cannot summarize this.''"
  let ?e = "scripted_env long_text [?good, ?bad]"
  have ok: "mimetype pdf_upload = Some (asc ''application/pdf'')
      \<or> (\<exists>n. originalname pdf_upload = Some n
            \<and> endsWith (toLowerCase (lower_non_ascii ?e) n) (asc ''.pdf''))"
    by (simp add: pdf_upload_def)
  have small: "size_bytes pdf_upload \<le> 10 * 1024 * 1024"
    by (simp add: pdf_upload_def)
  have extracted: "pdf ?e (buffer pdf_upload) = Inr (Some long_text)"
    by (simp add: scripted_pdf)
  have doc: "long_text = trim (case Some long_text of Some t \<Rightarrow> t | None \<Rightarrow> [])"
    by (simp add: trim_long_text)
  have n: "1 < length (chunks long_text)"
    by (simp add: chunks_long_text)
  have earlier: "\<forall>k < 1. \<exists>response textOut parsed summary.
      generateContent ?e
        (PdfParse (buffer pdf_upload)
           # map (\<lambda>c. GenerateContent (chunk_input c)) (take k (chunks long_text)))
        (chunk_input (chunks long_text ! k)) = Inr response
      \<and> promiseTextFromResponse (JSON_stringify ?e) response = Inr textOut
      \<and> extractJsonFromString textOut = Inr parsed
      \<and> member parsed (asc ''summary'') = JStr summary
      \<and> trim summary \<noteq> []"
    by (simp add: scripted_generateContent eval_summary_ok eval_trim_ok asc_eq_Nil)
  have call: "generateContent ?e
        (PdfParse (buffer pdf_upload)
           # map (\<lambda>c. GenerateContent (chunk_input c)) (take 1 (chunks long_text)))
        (chunk_input (chunks long_text ! 1)) = Inr (Callable (Inr (JStr ?bad)))"
    by (simp add: scripted_generateContent chunks_long_text)
  have raw: "promiseTextFromResponse (JSON_stringify ?e) (Callable (Inr (JStr ?bad))) = Inr (JStr ?bad)"
    by simp
  have invalid: "\<not> truthy JNull \<or> typeof JNull \<noteq> ''object''
      \<or> \<not> truthy (member JNull (asc ''summary''))"
    by simp
  have 1: "processPdf ?e (Some pdf_upload)
   = (Reply 500
        [(asc ''error'', JStr (asc ''Failed to parse Gemini summary for a PDF chunk.'')),
         (asc ''geminiRawResponse'', JStr ?bad)],
      [PdfParse [], GenerateContent (chunk_input (replicate 24000 0x61)),
       GenerateContent (chunk_input (replicate 24000 0x61))])"
    using chunk_failure_aborts [OF ok small extracted doc n earlier call raw eval_refusal invalid]
    by (simp add: chunks_long_text pdf_upload_def)
  let ?tiny = "asc ''{\"summary\": 1e-324}''"
  let ?e' = "scripted_env (asc ''hello'') [?tiny]"
  have ok': "mimetype pdf_upload = Some (asc ''application/pdf'')
      \<or> (\<exists>n. originalname pdf_upload = Some n
            \<and> endsWith (toLowerCase (lower_non_ascii ?e') n) (asc ''.pdf''))"
    by (simp add: pdf_upload_def)
  have extracted': "pdf ?e' (buffer pdf_upload) = Inr (Some (asc ''hello''))"
    by (simp add: scripted_pdf)
  have doc': "asc ''hello'' = trim (case Some (asc ''hello'') of Some t \<Rightarrow> t | None \<Rightarrow> [])"
    by (simp add: eval_trim_hello)
  have n': "0 < length (chunks (asc ''hello''))"
    by (simp add: chunks_hello)
  have earlier': "\<forall>k < 0. \<exists>response textOut parsed summary.
      generateContent ?e'
        (PdfParse (buffer pdf_upload)
           # map (\<lambda>c. GenerateContent (chunk_input c)) (take k (chunks (asc ''hello''))))
        (chunk_input (chunks (asc ''hello'') ! k)) = Inr response
      \<and> promiseTextFromResponse (JSON_stringify ?e') response = Inr textOut
      \<and> extractJsonFromString textOut = Inr parsed
      \<and> member parsed (asc ''summary'') = JStr summary
      \<and> trim summary \<noteq> []"
    by simp
  have call': "generateContent ?e'
        (PdfParse (buffer pdf_upload)
           # map (\<lambda>c. GenerateContent (chunk_input c)) (take 0 (chunks (asc ''hello''))))
        (chunk_input (chunks (asc ''hello'') ! 0)) = Inr (Callable (Inr (JStr ?tiny)))"
    by (simp add: scripted_generateContent)
  have raw': "promiseTextFromResponse (JSON_stringify ?e') (Callable (Inr (JStr ?tiny)))
      = Inr (JStr ?tiny)"
    by simp
  have invalid': "\<not> truthy (JObj [(asc ''summary'', JNum 0)])
      \<or> typeof (JObj [(asc ''summary'', JNum 0)]) \<noteq> ''object''
      \<or> \<not> truthy (member (JObj [(asc ''summary'', JNum 0)]) (asc ''summary''))"
    by simp
  have 2: "processPdf ?e' (Some pdf_upload)
   = (Reply 500
        [(asc ''error'', JStr (asc ''Failed to parse Gemini summary for a PDF chunk.'')),
         (asc ''geminiRawResponse'', JStr ?tiny)],
      [PdfParse [], GenerateContent (chunk_input (asc ''hello''))])"
    using chunk_failure_aborts
      [OF ok' small extracted' doc' n' earlier' call' raw' eval_tiny_summary invalid']
    by (simp add: chunks_hello pdf_upload_def)
  show ?thesis
    using 1 2 by simp
qed

text \<open>
  The claim fails where it says that the failure identifies the chunk: for a text of
  three chunks, the reply is the same whether the first chunk fails or the second (only
  the calls made differ).
\<close>

theorem chunk_failure_anonymous:
  "processPdf (scripted_env long_text [asc ''I cannot summarize this.'']) (Some pdf_upload)
   = (Reply 500
        [(asc ''error'', JStr (asc ''Failed to parse Gemini summary for a PDF chunk.'')),
         (asc ''geminiRawResponse'', JStr (asc ''I cannot summarize this.''))],
      [PdfParse [], GenerateContent (chunk_input (replicate 24000 0x61))])
   \<and> processPdf (scripted_env long_text
        [asc ''{\"summary\":\"ok\"}'', asc ''I cannot summarize this.'']) (Some pdf_upload)
   = (Reply 500
        [(asc ''error'', JStr (asc ''Failed to parse Gemini summary for a PDF chunk.'')),
         (asc ''geminiRawResponse'', JStr (asc ''I cannot summarize this.''))],
      [PdfParse [], GenerateContent (chunk_input (replicate 24000 0x61)),
       GenerateContent (chunk_input (replicate 24000 0x61))])"
  using eval_first_chunk_fails eval_second_chunk_fails by simp

subsection \<open>What counts as a summary\<close>

lemma eval_number_summary:
  "extractJsonFromString (JStr (asc ''{\"summary\": 5}'')) = Inr (JObj [(asc ''summary'', JNum 5)])"
  by code_simp

text \<open>
  C5: the claim is what the sibling check of \<open>processImage\<close> does, and not what
  \<open>processPdf\<close> does. Line 203 tests \<open>!parsed.summary\<close> before the trim and never
  tests the type: an answer whose \<open>summary\<close> is three spaces passes, and the request
  ends with status 200 and the empty summary; an answer whose \<open>summary\<close> is the number
  5 passes too, and the \<open>trim\<close> call throws, so the request ends in the handler's
  \<open>catch\<close> and not as a validation failure.
\<close>

theorem blank_summary_accepted:
  "processPdf (scripted_env (asc ''hello'') [asc ''{\"summary\":\"   \"}'']) (Some pdf_upload)
   = (Reply 200 [(asc ''summary'', JStr [])],
      [PdfParse [], GenerateContent (chunk_input (asc ''hello''))])
   \<and> processPdf (scripted_env (asc ''hello'') [asc ''{\"summary\": 5}'']) (Some pdf_upload)
   = (Reply 500 [(asc ''error'', JStr (asc ''Failed to process PDF.'')),
                 (asc ''details'', JStr (asc ''parsed.summary.trim is not a function''))],
      [PdfParse [], GenerateContent (chunk_input (asc ''hello''))])"
proof -
  have blank: "summarize_chunk (scripted_env (asc ''hello'') [asc ''{\"summary\":\"   \"}''])
      [PdfParse []] (asc ''hello'') = Next []"
    by (simp add: summarize_chunk_scripted eval_blank_summary eval_trim_hello asc_eq_iff asc_eq_Nil)
  have number: "summarize_chunk (scripted_env (asc ''hello'') [asc ''{\"summary\": 5}''])
      [PdfParse []] (asc ''hello'') = Throw (NotAFunction ''parsed.summary.trim'')"
    by (simp add: summarize_chunk_scripted eval_number_summary asc_eq_iff asc_eq_Nil)
  have 1: "processPdf (scripted_env (asc ''hello'') [asc ''{\"summary\":\"   \"}'']) (Some pdf_upload)
    = (Reply 200 [(asc ''summary'', JStr [])],
       [PdfParse [], GenerateContent (chunk_input (asc ''hello''))])"
    by (simp add: processPdf_def processPdf_try_def pdf_upload_def summarize_document_def
          scripted_pdf eval_trim_hello chunks_hello blank respond_def cap_def asc_eq_iff asc_eq_Nil)
  have 2: "processPdf (scripted_env (asc ''hello'') [asc ''{\"summary\": 5}'']) (Some pdf_upload)
    = (Reply 500 [(asc ''error'', JStr (asc ''Failed to process PDF.'')),
                  (asc ''details'', JStr (asc ''parsed.summary.trim is not a function''))],
       [PdfParse [], GenerateContent (chunk_input (asc ''hello''))])"
    by (simp add: processPdf_def processPdf_try_def pdf_upload_def summarize_document_def
          scripted_pdf eval_trim_hello chunks_hello number asc_eq_iff asc_eq_Nil)
       (simp add: asc_def)
  show ?thesis
    using 1 2 by simp
qed

theorem blank_summary_accepted_witness:
  "fst (processPdf (scripted_env (asc ''hello'') [asc ''{\"summary\":\"   \"}'']) (Some pdf_upload))
   = Reply 200 [(asc ''summary'', JStr [])]"
  using blank_summary_accepted by simp

subsection \<open>What counts as an image artifact\<close>

text \<open>
  C6: for a model answer that parses to an object, \<open>processImage\<close> replies with status
  200 exactly when \<open>title\<close> and \<open>description\<close> are both strings that are not blank, and
  the reply then holds both trimmed; in every other case (a key missing, not a string,
  or blank) it replies with status 500, "required keys are missing or invalid" and the
  parsed object. One valid key alone is a failure.
\<close>

theorem image_keys_validated:
  assumes ok: "\<exists>m. mimetype f = Some m \<and> startsWith m (asc ''image/'')"
    and small: "size_bytes f \<le> 10 * 1024 * 1024"
    and call: "generateContent e []
        \<lparr>model = MODEL, contents = (image_prompt, bufferToGenerativePart (buffer f) (mimetype f))\<rparr>
      = Inr response"
    and raw: "promiseTextFromResponse (JSON_stringify e) response = Inr textOut"
    and parsed: "extractJsonFromString textOut = Inr parsed" "truthy parsed" "typeof parsed = ''object''"
  shows "(\<forall>t d. member parsed (asc ''title'') = JStr t \<and> trim t \<noteq> []
            \<and> member parsed (asc ''description'') = JStr d \<and> trim d \<noteq> []
          \<longrightarrow> fst (processImage e (Some f))
              = Reply 200 [(asc ''title'', JStr (trim t)), (asc ''description'', JStr (trim d))])
    \<and> ((\<nexists>t. member parsed (asc ''title'') = JStr t \<and> trim t \<noteq> [])
          \<or> (\<nexists>d. member parsed (asc ''description'') = JStr d \<and> trim d \<noteq> [])
        \<longrightarrow> fst (processImage e (Some f))
              = Reply 500
                  [(asc ''error'',
                    JStr (asc ''Gemini returned JSON but required keys are missing or invalid.'')),
                   (asc ''geminiJson'', parsed)])"
proof -
  have run: "fst (processImage e (Some f)) = image_artifact parsed"
    using ok small call raw parsed
    by (auto simp: processImage_def processImage_try_def Let_def)
  have good: "image_artifact parsed
      = Reply 200 [(asc ''title'', JStr (trim t)), (asc ''description'', JStr (trim d))]"
    if "member parsed (asc ''title'') = JStr t" "trim t \<noteq> []"
      "member parsed (asc ''description'') = JStr d" "trim d \<noteq> []" for t d
  proof -
    from that have "t \<noteq> []" "d \<noteq> []"
      using trim_Nil by auto
    with that show ?thesis
      by (simp add: image_artifact_def trimmed_or_null_JStr)
  qed
  have bad: "image_artifact parsed
      = Reply 500
          [(asc ''error'',
            JStr (asc ''Gemini returned JSON but required keys are missing or invalid.'')),
           (asc ''geminiJson'', parsed)]"
    if "(\<nexists>t. member parsed (asc ''title'') = JStr t \<and> trim t \<noteq> [])
          \<or> (\<nexists>d. member parsed (asc ''description'') = JStr d \<and> trim d \<noteq> [])"
    using that by (auto simp: image_artifact_def Let_def trimmed_or_null_truthy)
  show ?thesis
    unfolding run using good bad by blast
qed

lemma eval_title_only:
  "extractJsonFromString (JStr (asc ''{\"title\": \"x\"}''))
   = Inr (JObj [(asc ''title'', JStr (asc ''x''))])"
  by code_simp

lemma eval_title_description:
  "extractJsonFromString (JStr (asc ''{\"title\": \" x \", \"description\": \" y \"}''))
   = Inr (JObj [(asc ''title'', JStr (asc '' x '')), (asc ''description'', JStr (asc '' y ''))])"
  by code_simp

lemma eval_trim_x: "trim (asc '' x '') = asc ''x''" "trim (asc '' y '') = asc ''y''"
  by code_simp+

theorem image_keys_validated_witness:
  "fst (processImage (scripted_env [] [asc ''{\"title\": \"x\"}'']) (Some image_upload))
   = Reply 500
       [(asc ''error'', JStr (asc ''Gemini returned JSON but required keys are missing or invalid.'')),
        (asc ''geminiJson'', JObj [(asc ''title'', JStr (asc ''x''))])]
   \<and> fst (processImage (scripted_env [] [asc ''{\"title\": \" x \", \"description\": \" y \"}''])
        (Some image_upload))
   = Reply 200 [(asc ''title'', JStr (asc ''x'')), (asc ''description'', JStr (asc ''y''))]"
proof -
  let ?one = "asc ''{\"title\": \"x\"}''"
  let ?both = "asc ''{\"title\": \" x \", \"description\": \" y \"}''"
  have ok: "\<exists>m. mimetype image_upload = Some m \<and> startsWith m (asc ''image/'')"
    by (simp add: image_upload_def startsWith_def asc_def)
  have small: "size_bytes image_upload \<le> 10 * 1024 * 1024"
    by (simp add: image_upload_def)
  have call: "generateContent (scripted_env [] [a]) []
      \<lparr>model = MODEL,
       contents = (image_prompt, bufferToGenerativePart (buffer image_upload) (mimetype image_upload))\<rparr>
    = Inr (Callable (Inr (JStr a)))" for a
    by (simp add: scripted_generateContent)
  have raw: "promiseTextFromResponse (JSON_stringify (scripted_env [] [a])) (Callable (Inr (JStr a)))
      = Inr (JStr a)" for a
    by simp
  have 1: "fst (processImage (scripted_env [] [?one]) (Some image_upload))
    = Reply 500
       [(asc ''error'', JStr (asc ''Gemini returned JSON but required keys are missing or invalid.'')),
        (asc ''geminiJson'', JObj [(asc ''title'', JStr (asc ''x''))])]"
    using image_keys_validated [OF ok small call raw eval_title_only]
    by (simp add: asc_eq_iff)
  have 2: "fst (processImage (scripted_env [] [?both]) (Some image_upload))
    = Reply 200 [(asc ''title'', JStr (asc ''x'')), (asc ''description'', JStr (asc ''y''))]"
    using image_keys_validated [OF ok small call raw eval_title_description]
    by (simp add: asc_eq_iff asc_eq_Nil eval_trim_x)
  show ?thesis
    using 1 2 by simp
qed

subsection \<open>No extractable text\<close>

text \<open>
  C9: when the extracted text is empty after trimming, \<open>processPdf\<close> replies with
  status 422 and the "No selectable text" message, and the text extraction is all the
  request has done: no model call is made.
\<close>

theorem no_text_short_circuit:
  assumes "mimetype f = Some (asc ''application/pdf'')
      \<or> (\<exists>n. originalname f = Some n \<and> endsWith (toLowerCase (lower_non_ascii e) n) (asc ''.pdf''))"
    and "size_bytes f \<le> 10 * 1024 * 1024"
    and "pdf e (buffer f) = Inr data_text"
    and "trim (case data_text of Some t \<Rightarrow> t | None \<Rightarrow> []) = []"
  shows "processPdf e (Some f) =
      (Reply 422 [(asc ''error'', JStr (asc
         ''No selectable text found in PDF. If the PDF is scanned, Kindly upload a text-based PDF.''))],
       [PdfParse (buffer f)])"
  using assms(2-4) by (simp add: processPdf_def processPdf_accepted [OF assms(1)] summarize_document_def)

theorem no_text_short_circuit_witness:
  "processPdf (scripted_env (asc ''   '') [asc ''{\"summary\":\"ok\"}'']) (Some pdf_upload)
   = (Reply 422 [(asc ''error'', JStr (asc
        ''No selectable text found in PDF. If the PDF is scanned, Kindly upload a text-based PDF.''))],
      [PdfParse []])"
proof -
  let ?e = "scripted_env (asc ''   '') [asc ''{\"summary\":\"ok\"}'']"
  have ok: "mimetype pdf_upload = Some (asc ''application/pdf'')
      \<or> (\<exists>n. originalname pdf_upload = Some n
            \<and> endsWith (toLowerCase (lower_non_ascii ?e) n) (asc ''.pdf''))"
    by (simp add: pdf_upload_def)
  have small: "size_bytes pdf_upload \<le> 10 * 1024 * 1024"
    by (simp add: pdf_upload_def)
  have extracted: "pdf ?e (buffer pdf_upload) = Inr (Some (asc ''   ''))"
    by (simp add: scripted_pdf)
  have blank: "trim (case Some (asc ''   '') of Some t \<Rightarrow> t | None \<Rightarrow> []) = []"
    by (simp add: eval_trim_hello)
  show ?thesis
    using no_text_short_circuit [OF ok small extracted blank]
    by (simp add: pdf_upload_def)
qed

subsection \<open>A PDF by its name\<close>

text \<open>
  C10: an upload whose mimetype is not \<open>application/pdf\<close> but whose original name
  ends in \<open>.pdf\<close>, in any mix of upper and lower case, is not rejected as "not a PDF":
  above 10 MiB it gets the size reply, otherwise the text extraction runs and the request
  goes on exactly as for the same upload with mimetype \<open>application/pdf\<close>.
\<close>

theorem pdf_extension_bypasses_mime_check:
  assumes "mimetype f \<noteq> Some (asc ''application/pdf'')"
    and "originalname f = Some (stem @ [0x2E, p, d, x])"
    and "p = 0x70 \<or> p = 0x50" and "d = 0x64 \<or> d = 0x44" and "x = 0x66 \<or> x = 0x46"
  shows "fst (processPdf e (Some f))
        \<noteq> Reply 400 [(asc ''error'', JStr (asc ''Uploaded file is not a PDF.''))]
    \<and> (size_bytes f > 10 * 1024 * 1024 \<longrightarrow>
         processPdf e (Some f)
           = (Reply 413 [(asc ''error'', JStr (asc ''PDF exceeds maximum size of 10MB.''))], []))
    \<and> (size_bytes f \<le> 10 * 1024 * 1024 \<longrightarrow>
         (\<exists>rest. snd (processPdf e (Some f)) = PdfParse (buffer f) # rest)
         \<and> processPdf e (Some f)
             = processPdf e (Some (f\<lparr>mimetype := Some (asc ''application/pdf'')\<rparr>)))"
proof -
  have ok: "mimetype f = Some (asc ''application/pdf'')
      \<or> (\<exists>n. originalname f = Some n \<and> endsWith (toLowerCase (lower_non_ascii e) n) (asc ''.pdf''))"
    using assms(2) toLowerCase_pdf_suffix [OF assms(3-5)] by simp
  note acc = processPdf_accepted [OF ok]
  have acc': "processPdf_try e (Some (f\<lparr>mimetype := Some (asc ''application/pdf'')\<rparr>)) =
    (if size_bytes f > 10 * 1024 * 1024 then
       (Inr (Reply 413 [(asc ''error'', JStr (asc ''PDF exceeds maximum size of 10MB.''))]), [])
     else summarize_document e (buffer f))"
    by (subst processPdf_accepted) simp_all
  obtain res trace where sd: "summarize_document e (buffer f) = (res, trace)"
    by (cases "summarize_document e (buffer f)")
  have 1: "fst (processPdf e (Some f))
        \<noteq> Reply 400 [(asc ''error'', JStr (asc ''Uploaded file is not a PDF.''))]"
  proof (cases "size_bytes f > 10 * 1024 * 1024")
    case True
    then show ?thesis
      by (simp add: processPdf_def acc)
  next
    case False
    show ?thesis
    proof (cases res)
      case (Inl err)
      with False sd show ?thesis
        by (simp add: processPdf_def acc)
    next
      case (Inr r)
      obtain status body where r: "r = Reply status body"
        by (cases r)
      with Inr sd summarize_document_status [of e "buffer f" status body] have "status \<noteq> 400"
        by simp
      with False sd Inr r show ?thesis
        by (simp add: processPdf_def acc)
    qed
  qed
  have 2: "processPdf e (Some f)
      = (Reply 413 [(asc ''error'', JStr (asc ''PDF exceeds maximum size of 10MB.''))], [])"
    if "size_bytes f > 10 * 1024 * 1024"
    using that by (simp add: processPdf_def acc)
  have 3: "processPdf e (Some f)
      = processPdf e (Some (f\<lparr>mimetype := Some (asc ''application/pdf'')\<rparr>))"
    by (simp only: processPdf_def acc acc')
  have 4: "\<exists>rest. snd (processPdf e (Some f)) = PdfParse (buffer f) # rest"
    if "size_bytes f \<le> 10 * 1024 * 1024"
    using that summarize_document_trace [of e "buffer f"] sd
    by (cases res) (auto simp: processPdf_def acc)
  show ?thesis
    using 1 2 3 4 by blast
qed

theorem pdf_extension_bypasses_mime_check_witness:
  "fst (processPdf (scripted_env (asc ''   '') []) (Some scan_upload))
     \<noteq> Reply 400 [(asc ''error'', JStr (asc ''Uploaded file is not a PDF.''))]
   \<and> (\<exists>rest. snd (processPdf (scripted_env (asc ''   '') []) (Some scan_upload))
        = PdfParse [] # rest)"
proof -
  have mime: "mimetype scan_upload \<noteq> Some (asc ''application/pdf'')"
    by (simp add: scan_upload_def asc_eq_iff)
  have name: "originalname scan_upload = Some (asc ''Scan'' @ [0x2E, 0x50, 0x44, 0x46])"
    by (simp add: scan_upload_def asc_def)
  have small: "size_bytes scan_upload \<le> 10 * 1024 * 1024"
    by (simp add: scan_upload_def)
  have buf: "buffer scan_upload = []"
    by (simp add: scan_upload_def)
  let ?e = "scripted_env (asc ''   '') []"
  have t: "fst (processPdf ?e (Some scan_upload))
        \<noteq> Reply 400 [(asc ''error'', JStr (asc ''Uploaded file is not a PDF.''))]
    \<and> (size_bytes scan_upload > 10 * 1024 * 1024 \<longrightarrow>
         processPdf ?e (Some scan_upload)
           = (Reply 413 [(asc ''error'', JStr (asc ''PDF exceeds maximum size of 10MB.''))], []))
    \<and> (size_bytes scan_upload \<le> 10 * 1024 * 1024 \<longrightarrow>
         (\<exists>rest. snd (processPdf ?e (Some scan_upload)) = PdfParse (buffer scan_upload) # rest)
         \<and> processPdf ?e (Some scan_upload)
             = processPdf ?e (Some (scan_upload\<lparr>mimetype := Some (asc ''application/pdf'')\<rparr>)))"
    by (rule pdf_extension_bypasses_mime_check [OF mime name]) simp_all
  from t have "fst (processPdf ?e (Some scan_upload))
      \<noteq> Reply 400 [(asc ''error'', JStr (asc ''Uploaded file is not a PDF.''))]"
    by blast
  moreover from t small have
    "\<exists>rest. snd (processPdf ?e (Some scan_upload)) = PdfParse (buffer scan_upload) # rest"
    by blast
  ultimately show ?thesis
    by (simp add: buf)
qed

end
